theory Spec2Isabelle
  imports Main "HOL-Library.Char_ord" "HOL-Library.List_Lexorder" "HOL-Library.Multiset"
begin

section \<open>Python strings\<close>

text \<open>
  A Python \<open>str\<close> is a sequence of code points. The embedding uses \<open>string\<close>, whose
  characters are the 256 code points U+0000 .. U+00FF (the Latin-1 range); on that range
  \<open>isalnum\<close> and \<open>lower\<close> below are Python's \<open>str.isalnum\<close> and \<open>str.lower\<close>
  exactly, and \<open>lower\<close> is also JavaScript's \<open>toLowerCase\<close> there. Code points beyond
  U+00FF are outside the model.
\<close>

definition isalnum :: "char \<Rightarrow> bool" where
  "isalnum ch =
     (let n = (of_char ch :: nat)
      in (48 \<le> n \<and> n \<le> 57) \<or> (65 \<le> n \<and> n \<le> 90) \<or> (97 \<le> n \<and> n \<le> 122)
         \<or> n = 170 \<or> n = 178 \<or> n = 179 \<or> n = 181 \<or> n = 185 \<or> n = 186
         \<or> (188 \<le> n \<and> n \<le> 190) \<or> (192 \<le> n \<and> n \<le> 214)
         \<or> (216 \<le> n \<and> n \<le> 246) \<or> 248 \<le> n)"

definition lower_char :: "char \<Rightarrow> char" where
  "lower_char ch =
     (let n = (of_char ch :: nat)
      in if (65 \<le> n \<and> n \<le> 90) \<or> (192 \<le> n \<and> n \<le> 214) \<or> (216 \<le> n \<and> n \<le> 222)
         then char_of (n + 32) else ch)"

definition lower :: "string \<Rightarrow> string" where
  "lower s = map lower_char s"

text \<open>\<open>s.startswith(sub)\<close> and \<open>sub in s\<close>.\<close>

definition startswith :: "string \<Rightarrow> string \<Rightarrow> bool" where
  "startswith s sub = (take (length sub) s = sub)"

fun contains :: "string \<Rightarrow> string \<Rightarrow> bool" where
  "contains sub [] = (sub = [])"
| "contains sub (c # cs) = (startswith (c # cs) sub \<or> contains sub cs)"

text \<open>\<open>s.strip(chars)\<close>: drop the leading and the trailing characters that are in \<open>chars\<close>.\<close>

definition strip :: "string \<Rightarrow> string \<Rightarrow> string" where
  "strip chars s =
     rev (dropWhile (\<lambda>c. c \<in> set chars) (rev (dropWhile (\<lambda>c. c \<in> set chars) s)))"

text \<open>
  \<open>s.replace(old, new)\<close>: the non-overlapping occurrences of \<open>old\<close> are replaced from
  left to right; an empty \<open>old\<close> matches before every character and at the end.
\<close>

function replace :: "string \<Rightarrow> string \<Rightarrow> string \<Rightarrow> string" where
  "replace old new s =
     (if old = [] then new @ concat (map (\<lambda>c. c # new) s)
      else if s = [] then []
      else if startswith s old then new @ replace old new (drop (length old) s)
      else hd s # replace old new (tl s))"
  by pat_completeness auto
termination
  by (relation "measure (\<lambda>(old, new, s). length s)") auto

text \<open>\<open>sep.join(parts)\<close>.\<close>

fun join :: "string \<Rightarrow> string list \<Rightarrow> string" where
  "join sep [] = []"
| "join sep [p] = p"
| "join sep (p # q # ps) = p @ sep @ join sep (q # ps)"

section \<open>Site identifiers\<close>

text \<open>
  The loop of \<open>sanitize_site_id\<close>:
  \<^verbatim>\<open>while "--" in value: value = value.replace("--", "-")\<close>
\<close>

declare replace.simps [simp del]

lemma startswith_length: "startswith s sub \<Longrightarrow> length sub \<le> length s"
proof -
  assume "startswith s sub"
  then have "length (take (length sub) s) = length sub"
    by (simp add: startswith_def)
  then show ?thesis by simp
qed

lemma replace_Nil: "old \<noteq> [] \<Longrightarrow> replace old new [] = []"
  by (simp add: replace.simps)

lemma replace_not_longer:
  "old \<noteq> [] \<Longrightarrow> length new \<le> length old \<Longrightarrow> length (replace old new s) \<le> length s"
proof (induction old new s rule: replace.induct)
  case (1 old new s)
  show ?case
  proof (cases "s = []")
    case True
    with "1.prems" show ?thesis by (simp add: replace_Nil)
  next
    case nonempty: False
    show ?thesis
    proof (cases "startswith s old")
      case True
      then have "length old \<le> length s"
        by (rule startswith_length)
      with True nonempty "1.prems" "1.IH"(1) show ?thesis
        by (subst replace.simps) simp
    next
      case False
      with nonempty "1.prems" "1.IH"(2) show ?thesis
        by (subst replace.simps) (cases s, auto)
    qed
  qed
qed

lemma replace_shorter:
  "old \<noteq> [] \<Longrightarrow> length new < length old \<Longrightarrow> contains old s
     \<Longrightarrow> length (replace old new s) < length s"
proof (induction s)
  case Nil
  then show ?case by simp
next
  case (Cons c cs)
  show ?case
  proof (cases "startswith (c # cs) old")
    case True
    then have len: "length old \<le> length (c # cs)"
      by (rule startswith_length)
    have "length (replace old new (drop (length old) (c # cs))) \<le> length (drop (length old) (c # cs))"
      using Cons.prems by (intro replace_not_longer) simp_all
    with True len Cons.prems show ?thesis
      by (subst replace.simps) simp
  next
    case False
    with Cons show ?thesis
      by (subst replace.simps) simp
  qed
qed

function collapse_dashes :: "string \<Rightarrow> string" where
  "collapse_dashes v =
     (if contains ''--'' v then collapse_dashes (replace ''--'' ''-'' v) else v)"
  by pat_completeness auto
termination
  by (relation "measure length") (auto simp: replace_shorter)

declare collapse_dashes.simps [simp del]

definition sanitize_site_id :: "string \<Rightarrow> string" where
  "sanitize_site_id raw_value =
     (let v = map (\<lambda>ch. if isalnum ch \<or> ch \<in> {CHR ''-'', CHR ''_''} then ch else CHR ''-'')
                (lower raw_value);
          v = strip ''-_'' v;
          v = collapse_dashes v
      in if v = [] then ''site'' else v)"

text \<open>
  Two notions for the proofs: a character that the first pass of \<open>sanitize_site_id\<close> leaves
  as it is, and that first pass itself.
\<close>

definition kept :: "char \<Rightarrow> bool" where
  "kept c = ((isalnum c \<or> c \<in> {CHR ''-'', CHR ''_''}) \<and> lower_char c = c)"

definition clean :: "string \<Rightarrow> string" where
  "clean raw = map (\<lambda>ch. if isalnum ch \<or> ch \<in> {CHR ''-'', CHR ''_''} then ch else CHR ''-'') (lower raw)"

lemma lower_char_idem: "lower_char (lower_char c) = lower_char c"
  by (auto simp: lower_char_def Let_def)

lemma isalnum_lower_char: "isalnum (lower_char c) = isalnum c"
  by (auto simp: lower_char_def isalnum_def Let_def)

lemma lower_char_dash: "lower_char CHR ''-'' = CHR ''-''" "lower_char CHR ''_'' = CHR ''_''"
  by (simp_all add: lower_char_def)

lemma kept_clean: "c \<in> set (clean raw) \<Longrightarrow> kept c"
  by (auto simp: clean_def lower_def kept_def lower_char_idem lower_char_dash)

lemma clean_fixed: "(\<And>c. c \<in> set v \<Longrightarrow> kept c) \<Longrightarrow> clean v = v"
  by (induction v) (auto simp: clean_def lower_def kept_def)

lemma set_strip: "set (strip cs v) \<subseteq> set v"
proof -
  have "set (strip cs v) \<subseteq> set (dropWhile (\<lambda>c. c \<in> set cs) v)"
    unfolding strip_def using set_dropWhileD by fastforce
  also have "\<dots> \<subseteq> set v" using set_dropWhileD by fastforce
  finally show ?thesis .
qed

lemma hd_strip: "strip cs v \<noteq> [] \<Longrightarrow> hd (strip cs v) \<notin> set cs"
proof -
  let ?p = "\<lambda>c. c \<in> set cs"
  let ?w = "dropWhile ?p v"
  assume ne: "strip cs v \<noteq> []"
  have w: "?w \<noteq> []"
  proof
    assume e: "?w = []"
    have "strip cs v = rev (dropWhile ?p (rev ?w))" by (simp add: strip_def)
    also have "\<dots> = []" by (simp only: e rev.simps dropWhile.simps)
    finally have "strip cs v = []" .
    with ne show False by simp
  qed
  from w have hdw: "\<not> ?p (hd ?w)" by (rule hd_dropWhile)
  have "strip cs v = rev (dropWhile ?p (rev ?w))" by (simp add: strip_def)
  obtain a as where was: "?w = a # as" using w by (cases ?w) auto
  show ?thesis
  proof (cases "dropWhile ?p (rev as) = []")
    case True
    then have "strip cs v = [a]" using hdw was by (simp add: strip_def dropWhile_append)
    then show ?thesis using hdw was by simp
  next
    case False
    then have "strip cs v = a # rev (dropWhile ?p (rev as))"
      using was by (simp add: strip_def dropWhile_append)
    then show ?thesis using hdw was by simp
  qed
qed

lemma last_strip: "strip cs v \<noteq> [] \<Longrightarrow> last (strip cs v) \<notin> set cs"
proof -
  let ?p = "\<lambda>c. c \<in> set cs"
  assume ne: "strip cs v \<noteq> []"
  then have "dropWhile ?p (rev (dropWhile ?p v)) \<noteq> []" by (simp add: strip_def)
  then have "\<not> ?p (hd (dropWhile ?p (rev (dropWhile ?p v))))" by (rule hd_dropWhile)
  moreover have "last (strip cs v) = hd (dropWhile ?p (rev (dropWhile ?p v)))"
    using ne by (simp add: strip_def last_rev)
  ultimately show ?thesis by simp
qed

lemma strip_fixed:
  "(v \<noteq> [] \<Longrightarrow> hd v \<notin> set cs \<and> last v \<notin> set cs) \<Longrightarrow> strip cs v = v"
proof (cases v)
  case Nil
  then show ?thesis by (simp add: strip_def)
next
  case (Cons a as)
  assume "v \<noteq> [] \<Longrightarrow> hd v \<notin> set cs \<and> last v \<notin> set cs"
  with Cons have h: "a \<notin> set cs" and l: "last (a # as) \<notin> set cs" by auto
  have "rev (a # as) \<noteq> []" by simp
  then obtain b bs where r: "rev (a # as) = b # bs" by (cases "rev (a # as)") auto
  then have "b = last (a # as)" by (metis hd_rev list.sel(1))
  with l r have "dropWhile (\<lambda>c. c \<in> set cs) (rev (a # as)) = rev (a # as)" by simp
  with h Cons show ?thesis by (simp add: strip_def)
qed


lemma replace_dashes_step:
  "replace ''--'' ''-'' s =
     (if s = [] then []
      else if startswith s ''--'' then CHR ''-'' # replace ''--'' ''-'' (drop 2 s)
      else hd s # replace ''--'' ''-'' (tl s))"
  by (subst replace.simps) (simp add: numeral_2_eq_2)

lemma startswith_dashes: "startswith s ''--'' \<Longrightarrow> \<exists>r. s = CHR ''-'' # CHR ''-'' # r"
  by (cases s; cases "tl s") (auto simp: startswith_def)

lemma replace_dashes_ends:
  "s \<noteq> [] \<Longrightarrow> replace ''--'' ''-'' s \<noteq> [] \<and> hd (replace ''--'' ''-'' s) = hd s
     \<and> last (replace ''--'' ''-'' s) = last s \<and> set (replace ''--'' ''-'' s) \<subseteq> set s"
proof (induction "length s" arbitrary: s rule: less_induct)
  case less
  show ?case
  proof (cases "startswith s ''--''")
    case True
    then obtain r where s: "s = CHR ''-'' # CHR ''-'' # r"
      using startswith_dashes by blast
    have step: "replace ''--'' ''-'' s = CHR ''-'' # replace ''--'' ''-'' r"
      using True less.prems s by (subst replace_dashes_step) simp
    show ?thesis
    proof (cases "r = []")
      case True
      with step s show ?thesis by (simp add: replace_Nil)
    next
      case False
      with less.hyps [of r] s
      have "replace ''--'' ''-'' r \<noteq> [] \<and> last (replace ''--'' ''-'' r) = last r
        \<and> set (replace ''--'' ''-'' r) \<subseteq> set r" by simp
      with step s False show ?thesis by auto
    qed
  next
    case False
    obtain a as where s: "s = a # as" using less.prems by (cases s) auto
    have step: "replace ''--'' ''-'' s = a # replace ''--'' ''-'' as"
      using False s by (subst replace_dashes_step) simp
    show ?thesis
    proof (cases "as = []")
      case True
      with step s show ?thesis by (simp add: replace_Nil)
    next
      case nonempty: False
      with less.hyps [of as] s
      have "replace ''--'' ''-'' as \<noteq> [] \<and> last (replace ''--'' ''-'' as) = last as
        \<and> set (replace ''--'' ''-'' as) \<subseteq> set as" by simp
      with step s nonempty show ?thesis by auto
    qed
  qed
qed

lemma collapse_dashes_ends:
  "v \<noteq> [] \<Longrightarrow> collapse_dashes v \<noteq> [] \<and> hd (collapse_dashes v) = hd v
     \<and> last (collapse_dashes v) = last v \<and> set (collapse_dashes v) \<subseteq> set v"
proof (induction v rule: collapse_dashes.induct)
  case (1 v)
  show ?case
  proof (cases "contains ''--'' v")
    case True
    from replace_dashes_ends [OF "1.prems"]
    have r: "replace ''--'' ''-'' v \<noteq> []" "hd (replace ''--'' ''-'' v) = hd v"
      "last (replace ''--'' ''-'' v) = last v" "set (replace ''--'' ''-'' v) \<subseteq> set v"
      by simp_all
    from "1.IH" [OF True r(1)] r True show ?thesis
      by (subst (1 2 3 4) collapse_dashes.simps) auto
  next
    case False
    with "1.prems" show ?thesis by (subst (1 2 3 4) collapse_dashes.simps) simp
  qed
qed

lemma collapse_dashes_Nil: "collapse_dashes [] = []"
  by (subst collapse_dashes.simps) simp

lemma collapse_dashes_none: "\<not> contains ''--'' (collapse_dashes v)"
proof (induction v rule: collapse_dashes.induct)
  case (1 v)
  then show ?case by (subst collapse_dashes.simps) simp
qed

lemma collapse_dashes_fixed: "\<not> contains ''--'' v \<Longrightarrow> collapse_dashes v = v"
  by (subst collapse_dashes.simps) simp

lemma sanitize_site_id_clean:
  "sanitize_site_id raw =
     (let v = collapse_dashes (strip ''-_'' (clean raw)) in if v = [] then ''site'' else v)"
  by (simp add: sanitize_site_id_def clean_def Let_def)

lemma sanitize_site_id_fixed:
  assumes "v \<noteq> []" "\<And>c. c \<in> set v \<Longrightarrow> kept c" "hd v \<notin> set ''-_''" "last v \<notin> set ''-_''"
    "\<not> contains ''--'' v"
  shows "sanitize_site_id v = v"
proof -
  have "clean v = v" using assms(2) by (rule clean_fixed)
  moreover have "strip ''-_'' v = v" using assms(3,4) by (intro strip_fixed) simp
  moreover have "collapse_dashes v = v" using assms(5) by (rule collapse_dashes_fixed)
  ultimately show ?thesis using assms(1) by (simp add: sanitize_site_id_clean)
qed

lemma sanitize_site_id_idem: "sanitize_site_id (sanitize_site_id x) = sanitize_site_id x"
proof -
  let ?s = "strip ''-_'' (clean x)"
  let ?v = "collapse_dashes ?s"
  show ?thesis
  proof (cases "?s = []")
    case True
    then have "sanitize_site_id x = ''site''"
      by (simp add: sanitize_site_id_clean collapse_dashes_Nil)
    moreover have "sanitize_site_id ''site'' = ''site''" by code_simp
    ultimately show ?thesis by simp
  next
    case False
    from collapse_dashes_ends [OF False]
    have v: "?v \<noteq> []" "hd ?v = hd ?s" "last ?v = last ?s" "set ?v \<subseteq> set ?s" by simp_all
    have res: "sanitize_site_id x = ?v" using v(1) by (simp add: sanitize_site_id_clean Let_def)
    have "sanitize_site_id ?v = ?v"
    proof (rule sanitize_site_id_fixed)
      show "?v \<noteq> []" by (rule v(1))
      show "kept c" if "c \<in> set ?v" for c
      proof -
        from that v(4) have "c \<in> set ?s" by blast
        then have "c \<in> set (clean x)" using set_strip by blast
        then show ?thesis by (rule kept_clean)
      qed
      show "hd ?v \<notin> set ''-_''" using hd_strip [OF False] v(2) by simp
      show "last ?v \<notin> set ''-_''" using last_strip [OF False] v(3) by simp
      show "\<not> contains ''--'' ?v" by (rule collapse_dashes_none)
    qed
    with res show ?thesis by simp
  qed
qed

lemma sanitize_site_id_nonempty: "sanitize_site_id x \<noteq> []"
  by (simp add: sanitize_site_id_clean Let_def)

lemma dropWhile_all: "(\<And>c. c \<in> set v \<Longrightarrow> p c) \<Longrightarrow> dropWhile p v = []"
  by (induction v) auto

lemma sanitize_site_id_fallback:
  assumes "\<And>c. c \<in> set x \<Longrightarrow> \<not> isalnum c"
  shows "sanitize_site_id x = ''site''"
proof -
  have "c \<in> set ''-_''" if "c \<in> set (clean x)" for c
    using that assms by (auto simp: clean_def lower_def isalnum_lower_char)
  then have "dropWhile (\<lambda>c. c \<in> set ''-_'') (clean x) = []" by (rule dropWhile_all)
  then have "strip ''-_'' (clean x) = []" unfolding strip_def by (simp only: rev.simps dropWhile.simps)
  then show ?thesis by (simp add: sanitize_site_id_clean collapse_dashes_Nil)
qed

text \<open>
  Claim C5. Sanitising a site identifier is idempotent: for every raw identifier \<open>x\<close>,
  \<open>sanitize_site_id (sanitize_site_id x) = sanitize_site_id x\<close>; and the raw identifier
  \<open>Acme Co!\<close> is sanitised to \<open>acme-co\<close>.
\<close>

theorem sanitize_site_id_idempotent:
  "sanitize_site_id (sanitize_site_id x) = sanitize_site_id x
   \<and> sanitize_site_id ''Acme Co!'' = ''acme-co''"
proof
  show "sanitize_site_id (sanitize_site_id x) = sanitize_site_id x"
    by (rule sanitize_site_id_idem)
  show "sanitize_site_id ''Acme Co!'' = ''acme-co''"
    by code_simp
qed

text \<open>
  Claim C10. The sanitised identifier is never empty. A raw identifier without any
  alphanumeric character (only \<open>-\<close>, \<open>_\<close> and characters that are replaced by \<open>-\<close>, all of
  which are stripped) becomes the fixed fallback \<open>site\<close>, so that the distinct raw
  identifiers \<open>!!!\<close> and \<open>???\<close> get the same site identifier.
\<close>

theorem sanitize_site_id_never_empty:
  "sanitize_site_id x \<noteq> []
   \<and> ((\<forall>c \<in> set x. \<not> isalnum c) \<longrightarrow> sanitize_site_id x = ''site'')
   \<and> sanitize_site_id ''!!!'' = sanitize_site_id ''???''"
proof (intro conjI impI)
  show "sanitize_site_id x \<noteq> []"
    by (rule sanitize_site_id_nonempty)
  show "sanitize_site_id x = ''site''" if "\<forall>c \<in> set x. \<not> isalnum c"
    using that by (intro sanitize_site_id_fallback) simp
  show "sanitize_site_id ''!!!'' = sanitize_site_id ''???''"
    by code_simp
qed

theorem sanitize_site_id_never_empty_witness:
  "sanitize_site_id ''-_ !'' = ''site'' \<and> sanitize_site_id ''-_ !'' \<noteq> []"
proof -
  have h: "\<forall>c \<in> set ''-_ !''. \<not> isalnum c"
    by (simp add: isalnum_def)
  with sanitize_site_id_never_empty [of "''-_ !''"] show ?thesis
    by blast
qed

section \<open>Canonical serialisation and the form signature\<close>

text \<open>
  The values that the extraction script returns and that \<open>json.dumps\<close> serialises: null,
  booleans, integers, strings, arrays, and objects. An object is a Python \<open>dict\<close>, kept
  as the list of its items in insertion order (its keys are distinct). Floating-point
  numbers do not occur in the extracted forms and are not modelled.

  \<open>dumps\<close> is \<open>json.dumps(v, sort_keys=True, ensure_ascii=False)\<close>: the separators are
  a comma and a colon, each followed by a space, the items of an object are sorted by key,
  and a string is quoted with the quote, the backslash and the control characters escaped.
\<close>

datatype json =
    JNull
  | JBool bool
  | JInt int
  | JString string
  | JArray "json list"
  | JObject "(string \<times> json) list"

definition hex_digit :: "nat \<Rightarrow> char" where
  "hex_digit n = ''0123456789abcdef'' ! (n mod 16)"

definition escape_char :: "char \<Rightarrow> string" where
  "escape_char c =
     (if c = CHR 0x22 then [CHR 0x5C, CHR 0x22]
      else if c = CHR 0x5C then [CHR 0x5C, CHR 0x5C]
      else if c = CHR 0x0A then [CHR 0x5C, CHR ''n'']
      else if c = CHR 0x0D then [CHR 0x5C, CHR ''r'']
      else if c = CHR 0x09 then [CHR 0x5C, CHR ''t'']
      else if c = CHR 0x08 then [CHR 0x5C, CHR ''b'']
      else if c = CHR 0x0C then [CHR 0x5C, CHR ''f'']
      else if (of_char c :: nat) < 32
        then [CHR 0x5C, CHR ''u'', CHR ''0'', CHR ''0'',
              hex_digit (of_char c div 16), hex_digit (of_char c)]
      else [c])"

definition encode_basestring :: "string \<Rightarrow> string" where
  "encode_basestring s = [CHR 0x22] @ concat (map escape_char s) @ [CHR 0x22]"

function str_nat :: "nat \<Rightarrow> string" where
  "str_nat n =
     (if n < 10 then [hex_digit n] else str_nat (n div 10) @ [hex_digit (n mod 10)])"
  by pat_completeness auto
termination
  by (relation "measure id") auto

declare str_nat.simps [simp del]

definition str_int :: "int \<Rightarrow> string" where
  "str_int i = (if i < 0 then CHR ''-'' # str_nat (nat (- i)) else str_nat (nat i))"

fun dumps :: "json \<Rightarrow> string" where
  "dumps JNull = ''null''"
| "dumps (JBool b) = (if b then ''true'' else ''false'')"
| "dumps (JInt i) = str_int i"
| "dumps (JString s) = encode_basestring s"
| "dumps (JArray xs) = ''['' @ join '', '' (map dumps xs) @ '']''"
| "dumps (JObject kvs) =
     ''{'' @ join '', '' (map (\<lambda>(k, v). encode_basestring k @ '': '' @ dumps v)
                               (sort_key fst kvs)) @ ''}''"

text \<open>
  Two values are the same data when they are equal as Python values whatever the insertion
  order of the keys of their objects: arrays agree element by element, in order, and the
  items of an object are a rearrangement of items with the same keys and the same data.
\<close>

inductive same_data :: "json \<Rightarrow> json \<Rightarrow> bool" where
  "same_data JNull JNull"
| "same_data (JBool b) (JBool b)"
| "same_data (JInt i) (JInt i)"
| "same_data (JString s) (JString s)"
| "list_all2 same_data xs ys \<Longrightarrow> same_data (JArray xs) (JArray ys)"
| "map fst kvs = map fst kvs2 \<Longrightarrow> list_all2 same_data (map snd kvs) (map snd kvs2) \<Longrightarrow>
   mset kvs2 = mset kvs' \<Longrightarrow> distinct (map fst kvs) \<Longrightarrow>
   same_data (JObject kvs) (JObject kvs')"

text \<open>
  \<open>hashlib.sha256\<close> is not part of the repository; the digest function (text to hex digest)
  is a parameter of the model.
\<close>

definition sha256_text :: "(string \<Rightarrow> string) \<Rightarrow> string \<Rightarrow> string" where
  "sha256_text sha256 payload = sha256 payload"

definition compute_form_signature :: "(string \<Rightarrow> string) \<Rightarrow> json list \<Rightarrow> string" where
  "compute_form_signature sha256 forms =
     (let canonical = dumps (JArray forms) in sha256_text sha256 canonical)"

text \<open>
  The forms as the extraction script builds them (\<open>FORM_EXTRACTION_SCRIPT\<close>): one object
  per form, its controls and its submit candidates, with the keys in the order of the
  script's object literals. The fields \<open>id'\<close>, \<open>type'\<close>, \<open>method'\<close>, \<open>text'\<close> and \<open>fields'\<close> are the keys
  \<open>id\<close>, \<open>type\<close>, \<open>method\<close>, \<open>text\<close> and \<open>fields\<close>; \<open>submit_type\<close> is the key \<open>type\<close> of a submit candidate. A value that
  Python reads with \<open>.get\<close> and guards against \<open>None\<close> is an option.
\<close>

record field_descriptor =
  name :: "string option"
  id' :: "string option"
  tag :: "string option"
  type' :: "string option"
  required :: bool
  placeholder :: "string option"
  labels :: "string list"
  ariaRequired :: "string option"
  autocomplete :: "string option"

record submit_candidate =
  selector :: "string option"
  text' :: "string option"
  submit_type :: string

record form_descriptor =
  index :: int
  action :: "string option"
  method' :: string
  dataset :: "(string \<times> string option) list"
  fields' :: "field_descriptor list"
  submitters :: "submit_candidate list"

definition json_of_str :: "string option \<Rightarrow> json" where
  "json_of_str v = (case v of None \<Rightarrow> JNull | Some s \<Rightarrow> JString s)"

definition json_of_field :: "field_descriptor \<Rightarrow> json" where
  "json_of_field el =
     JObject [(''name'', json_of_str (name el)), (''id'', json_of_str (id' el)),
              (''tag'', json_of_str (tag el)), (''type'', json_of_str (type' el)),
              (''required'', JBool (required el)),
              (''placeholder'', json_of_str (placeholder el)),
              (''labels'', JArray (map JString (labels el))),
              (''ariaRequired'', json_of_str (ariaRequired el)),
              (''autocomplete'', json_of_str (autocomplete el))]"

definition json_of_submit :: "submit_candidate \<Rightarrow> json" where
  "json_of_submit el =
     JObject [(''selector'', json_of_str (selector el)), (''text'', json_of_str (text' el)),
              (''type'', JString (submit_type el))]"

definition json_of_form :: "form_descriptor \<Rightarrow> json" where
  "json_of_form form =
     JObject [(''index'', JInt (index form)), (''action'', json_of_str (action form)),
              (''method'', JString (method' form)),
              (''dataset'', JObject (map (\<lambda>(k, v). (k, json_of_str v)) (dataset form))),
              (''fields'', JArray (map json_of_field (fields' form))),
              (''submitters'', JArray (map json_of_submit (submitters form)))]"

text \<open>Example forms: a form with two controls and two submit candidates, and a second form.\<close>

definition email_field :: field_descriptor where
  "email_field = \<lparr>name = Some ''email'', id' = None, tag = Some ''input'', type' = Some ''email'',
     required = True, placeholder = None, labels = [''Email''], ariaRequired = None,
     autocomplete = None\<rparr>"

definition site_field :: field_descriptor where
  "site_field = \<lparr>name = Some ''site'', id' = None, tag = Some ''input'', type' = Some ''text'',
     required = False, placeholder = None, labels = [], ariaRequired = None,
     autocomplete = None\<rparr>"

definition next_button :: submit_candidate where
  "next_button = \<lparr>selector = Some ''button#go'', text' = Some ''Next'', submit_type = ''submit''\<rparr>"

definition back_button :: submit_candidate where
  "back_button = \<lparr>selector = Some ''button#back'', text' = Some ''Back'', submit_type = ''button''\<rparr>"

definition listing_form :: "field_descriptor list \<Rightarrow> submit_candidate list \<Rightarrow> form_descriptor" where
  "listing_form fs ss = \<lparr>index = 0, action = Some ''/submit'', method' = ''post'', dataset = [],
     fields' = fs, submitters = ss\<rparr>"

definition search_form :: form_descriptor where
  "search_form = \<lparr>index = 1, action = None, method' = ''get'', dataset = [], fields' = [],
     submitters = []\<rparr>"

text \<open>The second example form with the keys of its object in the opposite order.\<close>

definition search_form_reordered :: json where
  "search_form_reordered =
     JObject [(''submitters'', JArray []), (''fields'', JArray []), (''dataset'', JObject []),
              (''method'', JString ''get''), (''action'', JNull), (''index'', JInt 1)]"

lemma insort_key_related:
  assumes "list_all2 R xs ys" "R x y" "\<And>a b. R a b \<Longrightarrow> f a = g b"
  shows "list_all2 R (insort_key f x xs) (insort_key g y ys)"
  using assms(1)
proof (induction rule: list_all2_induct)
  case Nil
  with assms(2) show ?case by simp
next
  case (Cons a as b bs)
  with assms(2,3) show ?case by (auto simp: assms(3) [symmetric])
qed

lemma sort_key_related:
  assumes "list_all2 R xs ys" "\<And>a b. R a b \<Longrightarrow> f a = g b"
  shows "list_all2 R (sort_key f xs) (sort_key g ys)"
  using assms(1)
proof (induction rule: list_all2_induct)
  case Nil
  show ?case by simp
next
  case (Cons a as b bs)
  then show ?case by (simp add: insort_key_related assms(2))
qed

lemma list_all2_map_eq: "list_all2 (\<lambda>a b. f a = g b) xs ys \<Longrightarrow> map f xs = map g ys"
  by (induction rule: list_all2_induct) simp_all

lemma same_data_dumps: "same_data a b \<Longrightarrow> dumps a = dumps b"
proof (induction rule: same_data.induct)
  case (5 xs ys)
  then have "list_all2 (\<lambda>x y. dumps x = dumps y) xs ys"
    by (rule list_all2_mono) simp
  then have "map dumps xs = map dumps ys" by (rule list_all2_map_eq)
  then show ?case by simp
next
  case (6 kvs kvs2 vs')
  let ?item = "\<lambda>(k :: string, v). encode_basestring k @ '': '' @ dumps v"
  let ?R = "\<lambda>p q. fst p = fst q \<and> dumps (snd p) = dumps (snd q)"
  have len: "length kvs = length kvs2"
    using "6.hyps"(1) by (metis length_map)
  have "list_all2 ?R kvs kvs2"
  proof (rule list_all2_all_nthI [OF len])
    fix n assume n: "n < length kvs"
    have "fst (kvs ! n) = fst (kvs2 ! n)"
      using "6.hyps"(1) n len by (metis nth_map)
    moreover have "dumps (snd (kvs ! n)) = dumps (snd (kvs2 ! n))"
      using list_all2_nthD [OF "6.IH", of n] n len by simp
    ultimately show "?R (kvs ! n) (kvs2 ! n)" by simp
  qed
  then have "list_all2 ?R (sort_key fst kvs) (sort_key fst kvs2)"
    by (rule sort_key_related) simp
  then have "list_all2 (\<lambda>p q. ?item p = ?item q) (sort_key fst kvs) (sort_key fst kvs2)"
    by (rule list_all2_mono) (auto simp: case_prod_beta)
  then have items: "map ?item (sort_key fst kvs) = map ?item (sort_key fst kvs2)"
    by (rule list_all2_map_eq)
  have "distinct (map fst kvs2)" using "6.hyps"(1,3) by simp
  then have "inj_on fst (set kvs2)" by (simp add: distinct_map)
  with "6.hyps"(2) have "sort_key fst kvs2 = sort_key fst vs'"
    by (rule sort_key_eq_sort_key)
  with items show ?case by simp
qed simp_all

lemma compute_form_signature_same_data:
  "list_all2 same_data forms forms' \<Longrightarrow>
     compute_form_signature sha256 forms = compute_form_signature sha256 forms'"
  using same_data_dumps [OF same_data.intros(5)]
  by (simp add: compute_form_signature_def)

lemma same_data_empty_object: "same_data (JObject []) (JObject [])"
  by (rule same_data.intros(6) [of "[]" "[]" "[]"]) simp_all

lemma same_data_search_form: "same_data (json_of_form search_form) search_form_reordered"
proof -
  let ?items = "[(''index'', JInt 1), (''action'', JNull), (''method'', JString ''get''),
     (''dataset'', JObject []), (''fields'', JArray []), (''submitters'', JArray [])]"
  have "same_data (JObject ?items) (JObject (rev ?items))"
  proof (rule same_data.intros(6) [of ?items ?items "rev ?items"])
    show "list_all2 same_data (map snd ?items) (map snd ?items)"
      by (simp add: same_data.intros same_data_empty_object)
    show "mset ?items = mset (rev ?items)" by (simp only: mset_rev)
    show "distinct (map fst ?items)" by simp
  qed simp
  then show ?thesis
    by (simp add: search_form_reordered_def json_of_form_def search_form_def json_of_str_def)
qed

lemma forms_order: "dumps (JArray (map json_of_form [listing_form [email_field, site_field] [next_button, back_button], search_form]))
  \<noteq> dumps (JArray (map json_of_form [search_form, listing_form [email_field, site_field] [next_button, back_button]]))"
  by code_simp

lemma fields_order: "dumps (JArray (map json_of_form [listing_form [email_field, site_field] [next_button, back_button]]))
  \<noteq> dumps (JArray (map json_of_form [listing_form [site_field, email_field] [next_button, back_button]]))"
  by code_simp

lemma submitters_order: "dumps (JArray (map json_of_form [listing_form [email_field, site_field] [next_button, back_button]]))
  \<noteq> dumps (JArray (map json_of_form [listing_form [email_field, site_field] [back_button, next_button]]))"
  by code_simp

text \<open>
  Claim C3. Two forms lists that are the same data (same arrays in the same order, same
  key-value pairs in every object), whatever the insertion order of the keys of their
  objects, have the same signature. The signature is the digest of the canonical
  serialisation, and array order is significant in that serialisation: exchanging two
  forms, two fields of a form or two submit candidates of a form changes the canonical
  text.
\<close>

theorem compute_form_signature_key_order:
  "(list_all2 same_data forms forms' \<longrightarrow>
      compute_form_signature sha256 forms = compute_form_signature sha256 forms')
   \<and> compute_form_signature sha256 forms = sha256 (dumps (JArray forms))
   \<and> dumps (JArray (map json_of_form
         [listing_form [email_field, site_field] [next_button, back_button], search_form]))
      \<noteq> dumps (JArray (map json_of_form
         [search_form, listing_form [email_field, site_field] [next_button, back_button]]))
   \<and> dumps (JArray (map json_of_form
         [listing_form [email_field, site_field] [next_button, back_button]]))
      \<noteq> dumps (JArray (map json_of_form
         [listing_form [site_field, email_field] [next_button, back_button]]))
   \<and> dumps (JArray (map json_of_form
         [listing_form [email_field, site_field] [next_button, back_button]]))
      \<noteq> dumps (JArray (map json_of_form
         [listing_form [email_field, site_field] [back_button, next_button]]))"
proof (intro conjI impI)
  show "compute_form_signature sha256 forms = compute_form_signature sha256 forms'"
    if "list_all2 same_data forms forms'"
    using that by (rule compute_form_signature_same_data)
  show "compute_form_signature sha256 forms = sha256 (dumps (JArray forms))"
    by (simp add: compute_form_signature_def sha256_text_def)
qed (rule forms_order fields_order submitters_order)+

theorem compute_form_signature_key_order_witness:
  "json_of_form search_form \<noteq> search_form_reordered
   \<and> compute_form_signature (take 64) [json_of_form search_form]
       = compute_form_signature (take 64) [search_form_reordered]"
proof -
  have "json_of_form search_form \<noteq> search_form_reordered"
    by (simp add: json_of_form_def search_form_reordered_def)
  moreover have "list_all2 same_data [json_of_form search_form] [search_form_reordered]"
    by (simp add: same_data_search_form)
  ultimately show ?thesis
    using compute_form_signature_key_order
      [of "[json_of_form search_form]" "[search_form_reordered]" "take 64"]
    by blast
qed

section \<open>Multi-step inference\<close>

text \<open>
  \<open>infer_multi_step\<close> collects signal strings in a list, in the order of the source: the
  four markers of the rendered HTML, then for each form its dataset entries and its submit
  candidates, then the marker for more than one form. The result holds the signals
  deduplicated and sorted (\<open>sorted(set(signals))\<close>; Python compares strings
  lexicographically by code point, which is the order of \<open>string\<close> here).
  \<open>or_str v\<close> is \<open>v or ""\<close>.
\<close>

record multi_step =
  likely :: bool
  signals :: "string list"

definition or_str :: "string option \<Rightarrow> string" where
  "or_str v = (case v of None \<Rightarrow> [] | Some s \<Rightarrow> s)"

definition dataset_signal :: "string list \<Rightarrow> string \<times> string option \<Rightarrow> string list" where
  "dataset_signal sigs item =
     (let key = fst item; value = snd item;
          joined = (case value of Some v \<Rightarrow> key @ ''='' @ v | None \<Rightarrow> key)
      in if contains ''step'' (lower key)
            \<or> (case value of Some v \<Rightarrow> contains ''step'' (lower v) | None \<Rightarrow> False)
         then sigs @ [''form-dataset:'' @ joined] else sigs)"

definition submit_signal :: "string list \<Rightarrow> submit_candidate \<Rightarrow> string list" where
  "submit_signal sigs submit =
     (let text = lower (or_str (text' submit))
      in if list_ex (\<lambda>term. contains term text)
              [''next'', ''continue'', ''step'', ''proceed'', ''save & next'']
         then (if text \<noteq> [] then sigs @ [''submit-text:'' @ text] else sigs)
         else sigs)"

definition form_signals :: "string list \<Rightarrow> form_descriptor \<Rightarrow> string list" where
  "form_signals sigs form =
     (let sigs = foldl dataset_signal sigs (dataset form);
          sigs = foldl submit_signal sigs (submitters form)
      in sigs)"

definition infer_multi_step :: "form_descriptor list \<Rightarrow> string \<Rightarrow> multi_step" where
  "infer_multi_step forms dom_html =
     (let html_lower = lower dom_html;
          sigs = [];
          sigs = (if contains ''data-step'' html_lower
                     then sigs @ [''dom:data-step''] else sigs);
          sigs = (if contains ''form-step'' html_lower
                     then sigs @ [''dom:form-step''] else sigs);
          sigs = (if contains ''wizard'' html_lower
                     then sigs @ [''dom:wizard-keyword''] else sigs);
          sigs = (if contains ''progressbar'' html_lower
                     then sigs @ [''dom:progressbar''] else sigs);
          sigs = foldl form_signals sigs forms;
          sigs = (if length forms > 1
                     then sigs @ [''multiple-forms-on-page''] else sigs);
          unique_signals = sort (remdups sigs)
      in \<lparr>likely = unique_signals \<noteq> [], signals = unique_signals\<rparr>)"

lemma foldl_appending:
  assumes "\<And>a x. g a x = a @ g [] x"
  shows "foldl g a xs = a @ concat (map (g []) xs)"
proof (induction xs arbitrary: a)
  case Nil
  show ?case by simp
next
  case (Cons x xs)
  have "foldl g a (x # xs) = foldl g (g a x) xs" by simp
  also have "\<dots> = g a x @ concat (map (g []) xs)" by (rule Cons.IH)
  also have "\<dots> = a @ g [] x @ concat (map (g []) xs)" by (subst assms) simp
  finally show ?case by simp
qed

lemma dataset_signal_appends: "dataset_signal a x = a @ dataset_signal [] x"
  by (simp add: dataset_signal_def Let_def)

lemma submit_signal_appends: "submit_signal a x = a @ submit_signal [] x"
  by (simp add: submit_signal_def Let_def)

lemma form_signals_appends: "form_signals a form = a @ form_signals [] form"
  unfolding form_signals_def Let_def
  by (simp add: foldl_appending [of dataset_signal, OF dataset_signal_appends]
      foldl_appending [of submit_signal, OF submit_signal_appends])

lemma set_foldl_form_signals:
  "set (foldl form_signals a forms) = set a \<union> (\<Union>form \<in> set forms. set (form_signals [] form))"
  by (simp add: foldl_appending [of form_signals, OF form_signals_appends])

lemma sort_remdups_set: "set xs = set ys \<Longrightarrow> sort (remdups xs) = sort (remdups ys)"
  by (metis sorted_list_of_set_sort_remdups)

lemma infer_multi_step_permuted:
  assumes "mset forms' = mset forms"
  shows "infer_multi_step forms' dom_html = infer_multi_step forms dom_html"
proof -
  have s: "set forms' = set forms" using assms by (rule mset_eq_setD)
  have l: "length forms' = length forms" using assms by (rule mset_eq_length)
  have "set (foldl form_signals a forms') = set (foldl form_signals a forms)" for a
    by (simp only: set_foldl_form_signals s)
  then have "sort (remdups (foldl form_signals a forms' @ b))
      = sort (remdups (foldl form_signals a forms @ b))" for a b
    by (intro sort_remdups_set) simp
  note this [of _ "[]", simplified] this
  then show ?thesis
    unfolding infer_multi_step_def Let_def l by simp
qed

lemma infer_multi_step_sorted:
  "distinct (signals (infer_multi_step forms dom_html))
   \<and> sorted (signals (infer_multi_step forms dom_html))
   \<and> likely (infer_multi_step forms dom_html) = (signals (infer_multi_step forms dom_html) \<noteq> [])"
  by (simp add: infer_multi_step_def Let_def)

text \<open>
  Claim C4. For every forms list and rendered HTML the signal list of the multi-step
  inference has no duplicate and is sorted, and \<open>likely\<close> is true exactly when the list is
  not empty. The result does not depend on the order in which the forms are traversed.
  Two submit candidates with the text \<open>Next\<close> give the signal \<open>submit-text:next\<close> once.
\<close>

theorem infer_multi_step_signals:
  "distinct (signals (infer_multi_step forms dom_html))
   \<and> sorted (signals (infer_multi_step forms dom_html))
   \<and> likely (infer_multi_step forms dom_html) = (signals (infer_multi_step forms dom_html) \<noteq> [])
   \<and> (mset forms' = mset forms \<longrightarrow>
        infer_multi_step forms' dom_html = infer_multi_step forms dom_html)
   \<and> infer_multi_step [listing_form [] [next_button, next_button]] ''<html>''
       = \<lparr>likely = True, signals = [''submit-text:next'']\<rparr>"
proof (intro conjI impI)
  show "infer_multi_step forms' dom_html = infer_multi_step forms dom_html"
    if "mset forms' = mset forms"
    using that by (rule infer_multi_step_permuted)
  show "infer_multi_step [listing_form [] [next_button, next_button]] ''<html>''
       = \<lparr>likely = True, signals = [''submit-text:next'']\<rparr>"
    by code_simp
qed (simp_all add: infer_multi_step_sorted)

theorem infer_multi_step_signals_witness:
  "infer_multi_step [search_form, listing_form [] [next_button, back_button]] ''<ol class=wizard>''
     = infer_multi_step [listing_form [] [next_button, back_button], search_form] ''<ol class=wizard>''
   \<and> signals (infer_multi_step [listing_form [] [next_button, back_button], search_form]
         ''<ol class=wizard>'')
     = [''dom:wizard-keyword'', ''multiple-forms-on-page'', ''submit-text:next'']"
proof -
  have "mset [search_form, listing_form [] [next_button, back_button]]
      = mset [listing_form [] [next_button, back_button], search_form]"
    by (simp add: add.commute)
  moreover have "signals (infer_multi_step [listing_form [] [next_button, back_button], search_form]
         ''<ol class=wizard>'')
     = [''dom:wizard-keyword'', ''multiple-forms-on-page'', ''submit-text:next'']"
    by code_simp
  ultimately show ?thesis
    using infer_multi_step_signals
      [of "[listing_form [] [next_button, back_button], search_form]" "''<ol class=wizard>''"
        "[search_form, listing_form [] [next_button, back_button]]"]
    by blast
qed

section \<open>Captures, snapshots and the monitor\<close>

text \<open>
  A target of the run. Its fields carry the prefix \<open>t_\<close>, those of a row of the master
  index the prefix \<open>row_\<close> and those of a row of the event log the prefix \<open>ev_\<close>, because
  the same keys (\<open>site_id\<close>, \<open>homepage\<close>, ...) occur in the capture payload as well.
\<close>

definition TOOL_VERSION :: string where
  "TOOL_VERSION = ''1.0.0''"

record target =
  t_site_id :: string
  t_homepage :: string
  t_submission_url :: "string option"
  t_notes :: string
  t_raw_site_id :: string

definition t_target_url :: "target \<Rightarrow> string option" where
  "t_target_url t =
     (let url = (case t_submission_url t of
                   None \<Rightarrow> t_homepage t
                 | Some s \<Rightarrow> if s \<noteq> [] then s else t_homepage t)
      in if url \<noteq> [] then Some url else None)"

text \<open>
  The payload of a capture, which is also the document \<open>map.json\<close> of the site. The fields
  that \<open>compare_maps\<close> reads with \<open>.get\<close> are options: a document read back from disk may
  lack them. \<open>submitter_selectors\<close> is the key \<open>submitters\<close> and \<open>notes'\<close> the key \<open>notes\<close>.
\<close>

record artifacts =
  map_html :: string
  screenshot :: string
  map_json :: string

record site_map =
  tool_version :: string
  site_id :: string
  raw_site_id :: string
  homepage :: string
  submission_url :: "string option"
  target_url :: "string option"
  resolved_url :: "string option"
  captured_at :: string
  mode :: string
  status :: string
  error :: "string option"
  dom_checksum :: "string option"
  form_signature :: "string option"
  form_count :: nat
  field_count :: nat
  has_captcha :: "bool option"
  multi_step_signal :: multi_step
  likely_multi_step :: "bool option"
  forms :: "form_descriptor list"
  submitter_selectors :: "string list"
  notes' :: string
  artifacts :: artifacts
  load_duration_ms :: "int option"
  status_code :: "int option"

text \<open>\<open>compare_maps\<close>: the five comparisons, each appending its tag to the list of changes.\<close>

record diff =
  changed :: bool
  change_types :: "string list"

definition compare_maps :: "site_map \<Rightarrow> site_map \<Rightarrow> diff" where
  "compare_maps previous current =
     (let changes = [];
          changes = (if dom_checksum previous \<noteq> dom_checksum current
                     then changes @ [''DOM''] else changes);
          changes = (if form_signature previous \<noteq> form_signature current
                     then changes @ [''FORMS''] else changes);
          changes = (if has_captcha previous \<noteq> has_captcha current
                     then changes @ [''CAPTCHA''] else changes);
          changes = (if likely_multi_step previous \<noteq> likely_multi_step current
                     then changes @ [''STEP_HINT''] else changes);
          changes = (if or_str (resolved_url previous) \<noteq> or_str (resolved_url current)
                     then changes @ [''URL''] else changes)
      in \<lparr>changed = changes \<noteq> [], change_types = changes\<rparr>)"


text \<open>
  What is raised inside the \<open>try\<close> block of \<open>_capture_target\<close>, by the class that selects
  the handler: \<open>PlaywrightTimeoutError\<close> (a subclass of \<open>PlaywrightError\<close>),
  \<open>PlaywrightError\<close>, and any other exception. Each carries its message.

  A \<open>world\<close> is what the clock, the browser page and the file system answer while one
  target is processed: every call of the page that may raise has its outcome, in the order
  of the calls. \<open>evaluate\<close> is \<open>None\<close> when the script's result is not a list.
\<close>

datatype exn =
    PlaywrightTimeoutError string
  | PlaywrightError string
  | OtherException string

record world =
  utc_now :: string
  perf_ms :: int
  goto :: "exn + int option"
  page_url :: string
  wait_for_timeout :: "exn + unit"
  content :: "exn + string"
  write_text :: "exn + unit"
  take_screenshot :: "exn + unit"
  evaluate :: "exn + form_descriptor list option"
  locator_count :: "string \<Rightarrow> exn + nat"
  utc_now_later :: string

text \<open>
  \<open>detect_captcha\<close>: the keywords in the lowered HTML, then the probe selectors in order;
  a Playwright error in a probe gives \<open>False\<close>, other exceptions propagate.
\<close>

fun probe_selectors :: "(string \<Rightarrow> exn + nat) \<Rightarrow> string list \<Rightarrow> exn + bool" where
  "probe_selectors counter [] = Inr False"
| "probe_selectors counter (sel # sels) =
     (case counter sel of
        Inl (PlaywrightError m) \<Rightarrow> Inr False
      | Inl (PlaywrightTimeoutError m) \<Rightarrow> Inr False
      | Inl (OtherException m) \<Rightarrow> Inl (OtherException m)
      | Inr n \<Rightarrow> if n \<noteq> 0 then Inr True else probe_selectors counter sels)"

definition detect_captcha :: "world \<Rightarrow> string \<Rightarrow> exn + bool" where
  "detect_captcha page dom_html =
     (let dom_lower = lower dom_html
      in if list_ex (\<lambda>keyword. contains keyword dom_lower)
              [''captcha'', ''recaptcha'', ''hcaptcha'', ''arkose'']
         then Inr True
         else probe_selectors (locator_count page)
                [''iframe[src*='recaptcha']'', ''.g-recaptcha'', ''.grecaptcha-badge'',
                 ''iframe[src*='hcaptcha']'', ''.h-captcha'', ''div[id*='captcha']'',
                 ''iframe[src*='arkoselabs']''])"

text \<open>
  \<open>_capture_target\<close>. The payload starts as an error payload; the \<open>try\<close> block (\<open>navigate\<close>,
  then \<open>extract_forms\<close>) updates it in place and either completes or raises, which is the
  first component of its result; the handlers set the error message, and \<open>finally\<close> the
  duration.
\<close>

definition initial_payload :: "world \<Rightarrow> target \<Rightarrow> string \<Rightarrow> site_map" where
  "initial_payload page target mode' =
     \<lparr>tool_version = TOOL_VERSION,
      site_id = t_site_id target,
      raw_site_id = t_raw_site_id target,
      homepage = t_homepage target,
      submission_url = t_submission_url target,
      target_url = t_target_url target,
      resolved_url = None,
      captured_at = utc_now page,
      mode = mode',
      status = ''error'',
      error = None,
      dom_checksum = None,
      form_signature = None,
      form_count = 0,
      field_count = 0,
      has_captcha = Some False,
      multi_step_signal = \<lparr>likely = False, signals = []\<rparr>,
      likely_multi_step = Some False,
      forms = [],
      submitter_selectors = [],
      notes' = t_notes target,
      artifacts = \<lparr>map_html = t_site_id target @ ''/map.html'',
                    screenshot = t_site_id target @ ''/sshot.png'',
                    map_json = t_site_id target @ ''/map.json''\<rparr>,
      load_duration_ms = None,
      status_code = None\<rparr>"

definition collect_submitters :: "form_descriptor list \<Rightarrow> string list" where
  "collect_submitters fs =
     sort (remdups (concat (map (\<lambda>form. concat (map (\<lambda>submit.
       (case selector submit of None \<Rightarrow> [] | Some sel \<Rightarrow> if sel \<noteq> [] then [sel] else []))
       (submitters form))) fs)))"

definition extract_forms :: "(string \<Rightarrow> string) \<Rightarrow> world \<Rightarrow> string \<Rightarrow> site_map \<Rightarrow> exn option \<times> site_map" where
  "extract_forms sha256 page html payload =
     (case evaluate page of
        Inl e \<Rightarrow> (Some e, payload)
      | Inr result \<Rightarrow>
          (let fs = (case result of None \<Rightarrow> [] | Some l \<Rightarrow> l)
           in case detect_captcha page html of
                Inl e \<Rightarrow> (Some e, payload)
              | Inr captcha \<Rightarrow>
                  (let multi_step = infer_multi_step fs html;
                       signature = compute_form_signature sha256 (map json_of_form fs);
                       checksum = sha256_text sha256 html;
                       subs = collect_submitters fs;
                       n_fields = sum_list (map (\<lambda>form. length (fields' form)) fs)
                   in (None,
                       payload\<lparr>status := ''ok'', error := None,
                               dom_checksum := Some checksum,
                               form_signature := Some signature,
                               form_count := length fs,
                               field_count := n_fields,
                               forms := fs,
                               submitter_selectors := subs,
                               has_captcha := Some captcha,
                               multi_step_signal := multi_step,
                               likely_multi_step := Some (likely multi_step)\<rparr>))))"

definition navigate :: "(string \<Rightarrow> string) \<Rightarrow> world \<Rightarrow> site_map \<Rightarrow> exn option \<times> site_map" where
  "navigate sha256 page payload =
     (case goto page of
        Inl e \<Rightarrow> (Some e, payload)
      | Inr response \<Rightarrow>
          (let payload = payload\<lparr>resolved_url := Some (page_url page)\<rparr>;
               payload = (case response of
                            None \<Rightarrow> payload
                          | Some code \<Rightarrow> payload\<lparr>status_code := Some code\<rparr>)
           in case wait_for_timeout page of
                Inl e \<Rightarrow> (Some e, payload)
              | Inr u \<Rightarrow>
                  (case content page of
                     Inl e \<Rightarrow> (Some e, payload)
                   | Inr html \<Rightarrow>
                       (case write_text page of
                          Inl e \<Rightarrow> (Some e, payload)
                        | Inr u \<Rightarrow>
                            (case take_screenshot page of
                               Inl (OtherException m) \<Rightarrow> (Some (OtherException m), payload)
                             | _ \<Rightarrow> extract_forms sha256 page html payload)))))"

definition capture_target :: "int \<Rightarrow> (string \<Rightarrow> string) \<Rightarrow> world \<Rightarrow> target \<Rightarrow> string \<Rightarrow> site_map" where
  "capture_target timeout sha256 page target mode' =
     (let payload = initial_payload page target mode'
      in case t_target_url target of
           None \<Rightarrow>
             payload\<lparr>error := Some ''Missing submission_url and homepage; nothing to capture.''\<rparr>
         | Some url \<Rightarrow>
             (let (raised, payload) = navigate sha256 page payload;
                  payload =
                    (case raised of
                       None \<Rightarrow> payload
                     | Some (PlaywrightTimeoutError exc) \<Rightarrow>
                         payload\<lparr>error := Some (''Navigation timeout after '' @ str_int timeout
                                                  @ '' ms: '' @ exc)\<rparr>
                     | Some (PlaywrightError exc) \<Rightarrow>
                         payload\<lparr>error := Some (''Playwright error: '' @ exc)\<rparr>
                     | Some (OtherException exc) \<Rightarrow>
                         payload\<lparr>error := Some (''Unexpected error: '' @ exc)\<rparr>)
              in payload\<lparr>load_duration_ms := Some (perf_ms page)\<rparr>))"

text \<open>
  The files under the output directory: \<open>map.json\<close> of each site (absent, unparsable, or a
  document), the master index (absent, or its rows) and the event log. A \<open>map.json\<close> that
  parses is taken to be a payload as the toolkit writes it, and writing a table as CSV and
  reading it back is taken to return the same rows.
\<close>

record master_row =
  row_site_id :: string
  row_homepage :: string
  row_submission_url :: string
  row_notes :: string
  row_target_url :: string
  row_resolved_url :: string
  row_last_mode :: string
  row_last_captured_at :: string
  row_status :: string
  row_last_error :: string
  row_dom_checksum :: string
  row_form_signature :: string
  row_form_count :: nat
  row_field_count :: nat
  row_has_captcha :: "bool option"
  row_likely_multi_step :: "bool option"
  row_map_json :: string
  row_map_html :: string
  row_screenshot :: string
  row_captured_with :: string

record event_row =
  ev_timestamp :: string
  ev_site_id :: string
  ev_level :: string
  ev_change_type :: string
  ev_dom_checksum_prev :: string
  ev_dom_checksum_new :: string
  ev_form_signature_prev :: string
  ev_form_signature_new :: string
  ev_resolved_url_prev :: string
  ev_resolved_url_new :: string
  ev_details :: string

datatype map_file = Unparsable | Document site_map

record store =
  map_files :: "string \<Rightarrow> map_file option"
  master_index :: "master_row list option"
  events :: "event_row list"

definition load_existing_map :: "store \<Rightarrow> string \<Rightarrow> site_map option" where
  "load_existing_map st site =
     (case map_files st site of
        None \<Rightarrow> None
      | Some Unparsable \<Rightarrow> None
      | Some (Document previous) \<Rightarrow> Some previous)"

definition write_map_json :: "store \<Rightarrow> site_map \<Rightarrow> store" where
  "write_map_json st payload =
     st\<lparr>map_files := (map_files st)(site_id payload \<mapsto> Document payload)\<rparr>"

definition master_row_of :: "site_map \<Rightarrow> master_row" where
  "master_row_of capture =
     \<lparr>row_site_id = site_id capture,
      row_homepage = homepage capture,
      row_submission_url = or_str (submission_url capture),
      row_notes = notes' capture,
      row_target_url = or_str (target_url capture),
      row_resolved_url = or_str (resolved_url capture),
      row_last_mode = mode capture,
      row_last_captured_at = captured_at capture,
      row_status = (if status capture = [] then ''error'' else status capture),
      row_last_error = or_str (error capture),
      row_dom_checksum = or_str (dom_checksum capture),
      row_form_signature = or_str (form_signature capture),
      row_form_count = form_count capture,
      row_field_count = field_count capture,
      row_has_captcha = has_captcha capture,
      row_likely_multi_step = likely_multi_step capture,
      row_map_json = map_json (artifacts capture),
      row_map_html = map_html (artifacts capture),
      row_screenshot = screenshot (artifacts capture),
      row_captured_with = TOOL_VERSION\<rparr>"

definition record_master_index :: "store \<Rightarrow> site_map \<Rightarrow> store" where
  "record_master_index st capture =
     (let row = master_row_of capture;
          df = (case master_index st of
                  Some df \<Rightarrow>
                    if list_ex (\<lambda>r. row_site_id r = row_site_id row) df
                    then map (\<lambda>r. if row_site_id r = row_site_id row then row else r) df
                    else df @ [row]
                | None \<Rightarrow> [row])
      in st\<lparr>master_index := Some df\<rparr>)"

definition log_change_event :: "world \<Rightarrow> store \<Rightarrow> site_map \<Rightarrow> site_map \<Rightarrow> string list \<Rightarrow> store" where
  "log_change_event page st previous current changes =
     (let details = join ''; '' (sort changes);
          event =
            \<lparr>ev_timestamp = (if captured_at current = [] then utc_now_later page
                             else captured_at current),
             ev_site_id = site_id current,
             ev_level = ''CHANGE'',
             ev_change_type = join '','' changes,
             ev_dom_checksum_prev = or_str (dom_checksum previous),
             ev_dom_checksum_new = or_str (dom_checksum current),
             ev_form_signature_prev = or_str (form_signature previous),
             ev_form_signature_new = or_str (form_signature current),
             ev_resolved_url_prev = or_str (resolved_url previous),
             ev_resolved_url_new = or_str (resolved_url current),
             ev_details = details\<rparr>
      in st\<lparr>events := events st @ [event]\<rparr>)"

text \<open>\<open>_process_single_target\<close>: one target of a run, in the given mode.\<close>

definition process_single_target ::
  "int \<Rightarrow> (string \<Rightarrow> string) \<Rightarrow> world \<Rightarrow> target \<Rightarrow> string \<Rightarrow> store \<Rightarrow> store" where
  "process_single_target timeout sha256 page target mode' st =
     (let previous_map = load_existing_map st (t_site_id target);
          capture = capture_target timeout sha256 page target mode';
          st = write_map_json st capture;
          st = record_master_index st capture
      in case previous_map of
           None \<Rightarrow> st
         | Some previous \<Rightarrow>
             if mode' = ''monitor''
             then (let diff = compare_maps previous capture
                   in if changed diff
                      then log_change_event page st previous capture (change_types diff)
                      else st)
             else st)"

text \<open>
  Examples: a target, a world in which the capture succeeds, one in which the navigation
  times out, and the snapshot of the failed capture.
\<close>

definition acme :: target where
  "acme = \<lparr>t_site_id = ''acme-co'', t_homepage = ''https://acme.test'', t_submission_url = None,
            t_notes = [], t_raw_site_id = ''Acme Co!''\<rparr>"

definition good_world :: world where
  "good_world =
     \<lparr>utc_now = ''2024-05-01T10:00:00+00:00'', perf_ms = 1200,
      goto = Inr (Some 200), page_url = ''https://acme.test/'',
      wait_for_timeout = Inr (), content = Inr ''<html><form id=f></form></html>'',
      write_text = Inr (), take_screenshot = Inr (),
      evaluate = Inr (Some [listing_form [email_field] [back_button]]),
      locator_count = (\<lambda>sel. Inr 0), utc_now_later = ''2024-05-01T10:00:02+00:00''\<rparr>"

definition timeout_world :: world where
  "timeout_world = good_world\<lparr>goto := Inl (PlaywrightTimeoutError ''Timeout 25000ms exceeded.'')\<rparr>"

definition error_snapshot :: site_map where
  "error_snapshot = capture_target 25000 (\<lambda>s. s) timeout_world acme ''monitor''"

text \<open>
  The output directory before any run, the snapshot of the successful capture, and the
  output directory after a first monitoring run in which the capture succeeded.
\<close>

definition empty_store :: store where
  "empty_store = \<lparr>map_files = (\<lambda>site. None), master_index = None, events = []\<rparr>"

definition ok_snapshot :: site_map where
  "ok_snapshot = capture_target 25000 (\<lambda>s. s) good_world acme ''monitor''"

definition baseline_store :: store where
  "baseline_store = process_single_target 25000 (\<lambda>s. s) good_world acme ''monitor'' empty_store"

text \<open>
  The two shapes of a payload: as it starts (an error payload without fingerprints) and as
  a completed capture leaves it.
\<close>

definition pristine :: "site_map \<Rightarrow> bool" where
  "pristine p = (status p = ''error'' \<and> dom_checksum p = None \<and> form_signature p = None)"

definition complete :: "site_map \<Rightarrow> bool" where
  "complete p = (status p = ''ok'' \<and> dom_checksum p \<noteq> None \<and> form_signature p \<noteq> None)"

subsection \<open>The comparison of two snapshots\<close>

lemma compare_maps_changes:
  "change_types (compare_maps previous current) =
     (if dom_checksum previous \<noteq> dom_checksum current then [''DOM''] else [])
     @ (if form_signature previous \<noteq> form_signature current then [''FORMS''] else [])
     @ (if has_captcha previous \<noteq> has_captcha current then [''CAPTCHA''] else [])
     @ (if likely_multi_step previous \<noteq> likely_multi_step current then [''STEP_HINT''] else [])
     @ (if or_str (resolved_url previous) \<noteq> or_str (resolved_url current) then [''URL''] else [])"
  by (simp add: compare_maps_def Let_def)

lemma compare_maps_changed:
  "changed (compare_maps previous current) = (change_types (compare_maps previous current) \<noteq> [])"
  by (simp add: compare_maps_def Let_def)

lemma error_snapshot_url: "resolved_url error_snapshot = None"
  by (simp add: error_snapshot_def capture_target_def t_target_url_def acme_def navigate_def
      timeout_world_def good_world_def initial_payload_def Let_def)

lemma ok_snapshot_url: "resolved_url ok_snapshot = Some ''https://acme.test/''"
  by (simp add: ok_snapshot_def capture_target_def t_target_url_def acme_def navigate_def
      good_world_def initial_payload_def extract_forms_def detect_captcha_def lower_def
      lower_char_def startswith_def Let_def)

lemma or_str_eq:
  "u \<noteq> Some [] \<Longrightarrow> v \<noteq> Some [] \<Longrightarrow> (or_str u = or_str v) = (u = v)"
  by (cases u; cases v) (auto simp: or_str_def)

text \<open>
  Claim C1. \<open>compare_maps\<close> returns exactly one fixed tag for each tracked field that
  differs, independently of the others: \<open>DOM\<close> for the DOM checksum, \<open>FORMS\<close> for the form
  signature, \<open>CAPTCHA\<close> for the captcha flag, \<open>STEP_HINT\<close> for the multi-step flag and \<open>URL\<close>
  for the resolved URL. No other tag occurs, none occurs twice, and \<open>changed\<close> is true
  exactly when there is a tag. Two snapshots that are identical except for the captcha flag
  give \<open>changed = True\<close> and the single tag \<open>CAPTCHA\<close>.

  The resolved URLs are compared after an absent URL is read as the empty string. A
  snapshot holds no URL or the URL of the page after the navigation, which is not the
  empty string; for such snapshots this is the comparison of the fields themselves.
\<close>

theorem compare_maps_tags:
  "(''DOM'' \<in> set (change_types (compare_maps previous current)))
      = (dom_checksum previous \<noteq> dom_checksum current)
   \<and> (''FORMS'' \<in> set (change_types (compare_maps previous current)))
      = (form_signature previous \<noteq> form_signature current)
   \<and> (''CAPTCHA'' \<in> set (change_types (compare_maps previous current)))
      = (has_captcha previous \<noteq> has_captcha current)
   \<and> (''STEP_HINT'' \<in> set (change_types (compare_maps previous current)))
      = (likely_multi_step previous \<noteq> likely_multi_step current)
   \<and> (''URL'' \<in> set (change_types (compare_maps previous current)))
      = (or_str (resolved_url previous) \<noteq> or_str (resolved_url current))
   \<and> (resolved_url previous \<noteq> Some [] \<and> resolved_url current \<noteq> Some [] \<longrightarrow>
        (''URL'' \<in> set (change_types (compare_maps previous current)))
          = (resolved_url previous \<noteq> resolved_url current))
   \<and> set (change_types (compare_maps previous current))
      \<subseteq> {''DOM'', ''FORMS'', ''CAPTCHA'', ''STEP_HINT'', ''URL''}
   \<and> distinct (change_types (compare_maps previous current))
   \<and> changed (compare_maps previous current)
      = (change_types (compare_maps previous current) \<noteq> [])
   \<and> (flag \<noteq> has_captcha previous \<longrightarrow>
        compare_maps previous (previous\<lparr>has_captcha := flag\<rparr>)
          = \<lparr>changed = True, change_types = [''CAPTCHA'']\<rparr>)"
proof (intro conjI impI)
  show "compare_maps previous (previous\<lparr>has_captcha := flag\<rparr>)
          = \<lparr>changed = True, change_types = [''CAPTCHA'']\<rparr>"
    if "flag \<noteq> has_captcha previous"
    using that by (auto simp: compare_maps_def Let_def)
  show "changed (compare_maps previous current)
      = (change_types (compare_maps previous current) \<noteq> [])"
    by (rule compare_maps_changed)
  show "set (change_types (compare_maps previous current))
      \<subseteq> {''DOM'', ''FORMS'', ''CAPTCHA'', ''STEP_HINT'', ''URL''}"
    by (auto simp: compare_maps_changes)
  show "(''URL'' \<in> set (change_types (compare_maps previous current)))
          = (resolved_url previous \<noteq> resolved_url current)"
    if "resolved_url previous \<noteq> Some [] \<and> resolved_url current \<noteq> Some []"
    using that by (simp add: compare_maps_changes or_str_eq)
qed (simp_all add: compare_maps_changes)

theorem compare_maps_tags_witness:
  "compare_maps error_snapshot (error_snapshot\<lparr>has_captcha := Some True\<rparr>)
     = \<lparr>changed = True, change_types = [''CAPTCHA'']\<rparr>
   \<and> resolved_url ok_snapshot \<noteq> resolved_url error_snapshot
   \<and> ''URL'' \<in> set (change_types (compare_maps ok_snapshot error_snapshot))"
proof -
  have "has_captcha error_snapshot = Some False"
    by (simp add: error_snapshot_def capture_target_def t_target_url_def acme_def navigate_def
      timeout_world_def good_world_def initial_payload_def Let_def)
  then have flag: "Some True \<noteq> has_captcha error_snapshot" by simp
  have urls: "resolved_url ok_snapshot \<noteq> Some [] \<and> resolved_url error_snapshot \<noteq> Some []"
    "resolved_url ok_snapshot \<noteq> resolved_url error_snapshot"
    by (simp_all add: ok_snapshot_url error_snapshot_url)
  from compare_maps_tags [of error_snapshot "error_snapshot\<lparr>has_captcha := Some True\<rparr>" "Some True"]
    flag
  have "compare_maps error_snapshot (error_snapshot\<lparr>has_captcha := Some True\<rparr>)
     = \<lparr>changed = True, change_types = [''CAPTCHA'']\<rparr>"
    by blast
  moreover from compare_maps_tags [of ok_snapshot error_snapshot] urls
  have "''URL'' \<in> set (change_types (compare_maps ok_snapshot error_snapshot))"
    by blast
  ultimately show ?thesis using urls(2) by blast
qed

subsection \<open>The outcome of a capture\<close>

lemma extract_forms_outcome:
  assumes "pristine p" "extract_forms sha256 page html p = (raised, p')"
  shows "(raised = None \<and> complete p') \<or> (raised \<noteq> None \<and> pristine p')"
  using assms
  by (auto simp: extract_forms_def Let_def pristine_def complete_def split: sum.splits)

lemma pristine_update:
  "pristine (p\<lparr>resolved_url := u\<rparr>) = pristine p"
  "pristine (p\<lparr>status_code := c\<rparr>) = pristine p"
  "pristine (p\<lparr>error := e\<rparr>) = pristine p"
  "pristine (p\<lparr>load_duration_ms := d\<rparr>) = pristine p"
  "complete (p\<lparr>error := e\<rparr>) = complete p"
  "complete (p\<lparr>load_duration_ms := d\<rparr>) = complete p"
  by (simp_all add: pristine_def complete_def)

lemma navigate_outcome:
  assumes "pristine p" "navigate sha256 page p = (raised, p')"
  shows "(raised = None \<and> complete p') \<or> (raised \<noteq> None \<and> pristine p')"
proof -
  have step: "(r = None \<and> complete p'') \<or> (r \<noteq> None \<and> pristine p'')"
    if "extract_forms sha256 page html q = (r, p'')" "pristine q" for html q r p''
    using that extract_forms_outcome by blast
  have q1: "pristine (p\<lparr>resolved_url := Some (page_url page)\<rparr>)"
    and q2: "pristine (p\<lparr>resolved_url := Some (page_url page), status_code := Some code\<rparr>)" for code
    using assms(1) by (simp_all add: pristine_update)
  show ?thesis
    using assms q1 q2
    by (auto simp: navigate_def Let_def split: sum.splits option.splits exn.splits dest: step)
qed

lemma initial_payload_pristine: "pristine (initial_payload page target mode')"
  by (simp add: initial_payload_def pristine_def)

lemma capture_target_outcome:
  "pristine (capture_target timeout sha256 page target mode')
   \<or> complete (capture_target timeout sha256 page target mode')"
proof (cases "t_target_url target")
  case None
  then show ?thesis
    by (simp add: capture_target_def Let_def pristine_update initial_payload_pristine)
next
  case (Some url)
  obtain raised p' where nav:
    "navigate sha256 page (initial_payload page target mode') = (raised, p')"
    by (cases "navigate sha256 page (initial_payload page target mode')") auto
  from navigate_outcome [OF initial_payload_pristine nav]
  show ?thesis
    using Some nav
    by (auto simp: capture_target_def Let_def pristine_update split: option.splits exn.splits)
qed

lemma extract_forms_resolved_url:
  "extract_forms sha256 page html p = (raised, p') \<Longrightarrow> resolved_url p' = resolved_url p"
  by (auto simp: extract_forms_def Let_def split: sum.splits)

lemma navigate_resolved_url:
  "navigate sha256 page p = (raised, p') \<Longrightarrow>
     resolved_url p' = resolved_url p \<or> resolved_url p' = Some (page_url page)"
  by (auto simp: navigate_def Let_def split: sum.splits option.splits exn.splits
      dest: extract_forms_resolved_url)

lemma capture_target_resolved_url:
  "resolved_url (capture_target timeout sha256 page target mode') = None
   \<or> resolved_url (capture_target timeout sha256 page target mode') = Some (page_url page)"
proof (cases "t_target_url target")
  case None
  then show ?thesis by (simp add: capture_target_def Let_def initial_payload_def)
next
  case (Some url)
  obtain raised p' where nav:
    "navigate sha256 page (initial_payload page target mode') = (raised, p')"
    by (cases "navigate sha256 page (initial_payload page target mode')") auto
  from navigate_resolved_url [OF nav]
  have "resolved_url p' = None \<or> resolved_url p' = Some (page_url page)"
    by (simp add: initial_payload_def)
  with Some nav show ?thesis
    by (auto simp: capture_target_def Let_def split: option.splits exn.splits)
qed

text \<open>
  Claim C8. Every snapshot that a capture produces has \<open>dom_checksum\<close> and
  \<open>form_signature\<close> both present exactly when its status is \<open>ok\<close> and both absent exactly
  when its status is \<open>error\<close>; one is never present without the other.
\<close>

theorem capture_target_checksums:
  "(status (capture_target timeout sha256 page target mode') = ''ok'')
      = (dom_checksum (capture_target timeout sha256 page target mode') \<noteq> None
         \<and> form_signature (capture_target timeout sha256 page target mode') \<noteq> None)
   \<and> (status (capture_target timeout sha256 page target mode') = ''error'')
      = (dom_checksum (capture_target timeout sha256 page target mode') = None
         \<and> form_signature (capture_target timeout sha256 page target mode') = None)
   \<and> (dom_checksum (capture_target timeout sha256 page target mode') = None)
      = (form_signature (capture_target timeout sha256 page target mode') = None)"
  using capture_target_outcome [of timeout sha256 page target mode']
  by (auto simp: pristine_def complete_def)

subsection \<open>Processing one target\<close>

lemma events_write_map_json: "events (write_map_json st c) = events st"
  by (simp add: write_map_json_def)

lemma events_record_master_index: "events (record_master_index st c) = events st"
  by (simp add: record_master_index_def Let_def)

lemma events_log_change_event:
  "events (log_change_event page (record_master_index (write_map_json st c) c) previous c changes)
     = events (log_change_event page st previous c changes)"
  by (simp add: log_change_event_def Let_def events_record_master_index events_write_map_json)

lemma log_change_event_appends:
  "\<exists>event. events (log_change_event page st previous c changes) = events st @ [event]
     \<and> ev_site_id event = site_id c \<and> ev_change_type event = join '','' changes"
  by (simp add: log_change_event_def Let_def)

lemma process_single_target_events:
  "events (process_single_target timeout sha256 page target mode' st) =
     (case load_existing_map st (t_site_id target) of
        None \<Rightarrow> events st
      | Some previous \<Rightarrow>
          if mode' = ''monitor''
             \<and> changed (compare_maps previous (capture_target timeout sha256 page target mode'))
          then events (log_change_event page st previous
                 (capture_target timeout sha256 page target mode')
                 (change_types (compare_maps previous
                    (capture_target timeout sha256 page target mode'))))
          else events st)"
  by (simp add: process_single_target_def Let_def events_record_master_index
      events_write_map_json events_log_change_event split: option.splits)

lemma extract_forms_site_id:
  "extract_forms sha256 page html p = (raised, p') \<Longrightarrow> site_id p' = site_id p"
  by (auto simp: extract_forms_def Let_def split: sum.splits)

lemma navigate_site_id:
  "navigate sha256 page p = (raised, p') \<Longrightarrow> site_id p' = site_id p"
  by (auto simp: navigate_def Let_def split: sum.splits option.splits exn.splits
      dest: extract_forms_site_id)

lemma capture_target_site_id:
  "site_id (capture_target timeout sha256 page target mode') = t_site_id target"
proof (cases "t_target_url target")
  case None
  then show ?thesis by (simp add: capture_target_def Let_def initial_payload_def)
next
  case (Some url)
  obtain raised p' where nav:
    "navigate sha256 page (initial_payload page target mode') = (raised, p')"
    by (cases "navigate sha256 page (initial_payload page target mode')") auto
  from navigate_site_id [OF nav] have "site_id p' = t_site_id target"
    by (simp add: initial_payload_def)
  with Some nav show ?thesis
    by (auto simp: capture_target_def Let_def split: option.splits exn.splits)
qed

lemma map_files_record_master_index: "map_files (record_master_index st c) = map_files st"
  by (simp add: record_master_index_def Let_def)

lemma map_files_log_change_event: "map_files (log_change_event page st p c ch) = map_files st"
  by (simp add: log_change_event_def Let_def)

lemma process_single_target_map_file:
  "map_files (process_single_target timeout sha256 page target mode' st) (t_site_id target)
     = Some (Document (capture_target timeout sha256 page target mode'))"
  by (simp add: process_single_target_def Let_def map_files_record_master_index
      map_files_log_change_event write_map_json_def capture_target_site_id split: option.splits)

lemma process_single_target_saves:
  "load_existing_map (process_single_target timeout sha256 page target mode' st) (t_site_id target)
     = Some (capture_target timeout sha256 page target mode')"
  by (simp add: load_existing_map_def process_single_target_map_file)

lemma master_index_write_map_json:
  "master_index (record_master_index (write_map_json st c) c) = master_index (record_master_index st c)"
  by (simp add: record_master_index_def write_map_json_def Let_def)

lemma master_index_log_change_event:
  "master_index (log_change_event page st p c ch) = master_index st"
  by (simp add: log_change_event_def Let_def)

lemma process_single_target_master_index:
  "master_index (process_single_target timeout sha256 page target mode' st)
     = master_index (record_master_index st (capture_target timeout sha256 page target mode'))"
  by (simp add: process_single_target_def Let_def master_index_write_map_json
      master_index_log_change_event split: option.splits)

lemma upsert_holds_row:
  "\<exists>rows. master_index (record_master_index st c) = Some rows \<and> master_row_of c \<in> set rows"
proof (cases "master_index st")
  case None
  then show ?thesis by (simp add: record_master_index_def Let_def)
next
  case (Some df)
  show ?thesis
  proof (cases "list_ex (\<lambda>r. row_site_id r = row_site_id (master_row_of c)) df")
    case True
    then obtain r where "r \<in> set df" "row_site_id r = row_site_id (master_row_of c)"
      by (auto simp: list_ex_iff)
    then have "master_row_of c \<in> set (map (\<lambda>r. if row_site_id r = row_site_id (master_row_of c)
        then master_row_of c else r) df)"
      by (force simp: image_iff)
    with Some True show ?thesis by (simp add: record_master_index_def Let_def)
  next
    case False
    with Some show ?thesis by (simp add: record_master_index_def Let_def)
  qed
qed

lemma failed_capture_differs:
  assumes "complete previous" "pristine c"
  shows "changed (compare_maps previous c)"
    and "''DOM'' \<in> set (change_types (compare_maps previous c))"
    and "''FORMS'' \<in> set (change_types (compare_maps previous c))"
  using assms by (auto simp: compare_maps_changed compare_maps_changes complete_def pristine_def)

lemma capture_target_failed:
  "status (capture_target timeout sha256 page target mode') = ''error''
     \<Longrightarrow> pristine (capture_target timeout sha256 page target mode')"
  using capture_target_outcome [of timeout sha256 page target mode']
  by (auto simp: complete_def)


lemma acme_site_id: "t_site_id acme = ''acme-co''"
  by (simp add: acme_def)

lemma ok_snapshot_complete: "complete ok_snapshot"
proof -
  have "status ok_snapshot = ''ok''"
    by (simp add: ok_snapshot_def capture_target_def t_target_url_def acme_def navigate_def
        good_world_def initial_payload_def extract_forms_def detect_captcha_def lower_def
        lower_char_def startswith_def Let_def)
  with capture_target_outcome [of 25000 "\<lambda>s. s" good_world acme "''monitor''"]
  show ?thesis by (auto simp: ok_snapshot_def pristine_def)
qed

lemma error_snapshot_pristine: "pristine error_snapshot"
proof -
  have "status error_snapshot = ''error''"
    by (simp add: error_snapshot_def capture_target_def t_target_url_def acme_def navigate_def
        timeout_world_def good_world_def initial_payload_def Let_def)
  then show ?thesis unfolding error_snapshot_def by (rule capture_target_failed)
qed

lemma baseline_store_holds: "load_existing_map baseline_store ''acme-co'' = Some ok_snapshot"
  using process_single_target_saves [of 25000 "\<lambda>s. s" good_world acme "''monitor''" empty_store]
  by (simp add: baseline_store_def ok_snapshot_def acme_site_id)

lemma baseline_store_events: "events baseline_store = []"
  by (simp add: baseline_store_def process_single_target_events load_existing_map_def
      empty_store_def)

lemma timeout_after_baseline:
  "status (capture_target 25000 (\<lambda>s. s) timeout_world acme ''monitor'') = ''error''
   \<and> events baseline_store = []
   \<and> map ev_change_type
        (events (process_single_target 25000 (\<lambda>s. s) timeout_world acme ''monitor'' baseline_store))
      = [''DOM,FORMS,URL'']"
proof -
  have err: "pristine error_snapshot" by (rule error_snapshot_pristine)
  have ok: "complete ok_snapshot" by (rule ok_snapshot_complete)
  have url: "resolved_url ok_snapshot = Some ''https://acme.test/''"
    by (simp add: ok_snapshot_def capture_target_def t_target_url_def acme_def navigate_def
        good_world_def initial_payload_def extract_forms_def detect_captcha_def lower_def
        lower_char_def startswith_def Let_def)
  have flags: "has_captcha ok_snapshot = Some False" "likely_multi_step ok_snapshot = Some False"
    by (simp_all add: ok_snapshot_def capture_target_def t_target_url_def acme_def navigate_def
        good_world_def initial_payload_def extract_forms_def detect_captcha_def lower_def
        lower_char_def startswith_def Let_def infer_multi_step_def listing_form_def
        form_signals_def submit_signal_def back_button_def or_str_def)
  have eflags: "has_captcha error_snapshot = Some False"
    "likely_multi_step error_snapshot = Some False"
    by (simp_all add: error_snapshot_def capture_target_def t_target_url_def acme_def navigate_def
      timeout_world_def good_world_def initial_payload_def Let_def)
  have changes: "change_types (compare_maps ok_snapshot error_snapshot) = [''DOM'', ''FORMS'', ''URL'']"
    using err ok url flags eflags
    by (auto simp: compare_maps_changes pristine_def complete_def error_snapshot_url or_str_def)
  have "events (process_single_target 25000 (\<lambda>s. s) timeout_world acme ''monitor'' baseline_store)
      = events (log_change_event timeout_world baseline_store ok_snapshot error_snapshot
          [''DOM'', ''FORMS'', ''URL''])"
    using changes baseline_store_holds
    by (simp add: process_single_target_events compare_maps_changed acme_site_id
        error_snapshot_def [symmetric])
  then show ?thesis
    using err
    by (simp add: log_change_event_def Let_def baseline_store_events pristine_def
        error_snapshot_def)
qed

lemma changed_field_differs:
  assumes "changed (compare_maps previous current)"
  shows "dom_checksum previous \<noteq> dom_checksum current
     \<or> form_signature previous \<noteq> form_signature current
     \<or> has_captcha previous \<noteq> has_captcha current
     \<or> likely_multi_step previous \<noteq> likely_multi_step current
     \<or> resolved_url previous \<noteq> resolved_url current"
proof (rule ccontr)
  assume "\<not> ?thesis"
  then have "change_types (compare_maps previous current) = []"
    by (simp add: compare_maps_changes)
  with assms show False by (simp add: compare_maps_changed)
qed

text \<open>
  Claim C2, as stated: a target whose capture fails gets no comparison and no change event,
  even when a prior snapshot exists. This fails: \<open>_process_single_target\<close> does not look
  at the status of the capture. After a first monitoring run that saved a successful
  snapshot, a run in which the navigation times out records the error snapshot, compares
  it with the prior one and appends a change event with the tags \<open>DOM\<close>, \<open>FORMS\<close> and \<open>URL\<close>.
\<close>

theorem failed_capture_event_counterexample:
  "status (capture_target 25000 (\<lambda>s. s) timeout_world acme ''monitor'') = ''error''
   \<and> events baseline_store = []
   \<and> map ev_change_type
        (events (process_single_target 25000 (\<lambda>s. s) timeout_world acme ''monitor'' baseline_store))
      = [''DOM,FORMS,URL'']"
  by (rule timeout_after_baseline)

text \<open>
  Claim C2, amended. For every target whose capture fails, the run saves the snapshot with
  status \<open>error\<close> and performs the master-index upsert (the index holds the row of the
  failed capture, with status \<open>error\<close>). No change event is appended when no prior snapshot
  exists or the run is not a monitoring run. In a monitoring run with a prior snapshot the
  comparison is run as for a successful capture, and a change event is appended exactly
  when it reports a change; against a prior successful snapshot it always does, since the
  fingerprints of the failed capture are absent.
\<close>

theorem failed_capture_recorded:
  assumes "status (capture_target timeout sha256 page target mode') = ''error''"
  shows "load_existing_map (process_single_target timeout sha256 page target mode' st)
           (t_site_id target)
         = Some (capture_target timeout sha256 page target mode')
   \<and> (\<exists>rows. master_index (process_single_target timeout sha256 page target mode' st) = Some rows
        \<and> master_row_of (capture_target timeout sha256 page target mode') \<in> set rows)
   \<and> row_status (master_row_of (capture_target timeout sha256 page target mode')) = ''error''
   \<and> events (process_single_target timeout sha256 page target mode' st) =
       (case load_existing_map st (t_site_id target) of
          None \<Rightarrow> events st
        | Some previous \<Rightarrow>
            if mode' = ''monitor''
               \<and> changed (compare_maps previous (capture_target timeout sha256 page target mode'))
            then events (log_change_event page st previous
                   (capture_target timeout sha256 page target mode')
                   (change_types (compare_maps previous
                      (capture_target timeout sha256 page target mode'))))
            else events st)
   \<and> (\<forall>previous. complete previous \<longrightarrow>
        changed (compare_maps previous (capture_target timeout sha256 page target mode')))"
proof (intro conjI allI impI)
  show "load_existing_map (process_single_target timeout sha256 page target mode' st)
           (t_site_id target)
         = Some (capture_target timeout sha256 page target mode')"
    by (rule process_single_target_saves)
  show "\<exists>rows. master_index (process_single_target timeout sha256 page target mode' st) = Some rows
        \<and> master_row_of (capture_target timeout sha256 page target mode') \<in> set rows"
    unfolding process_single_target_master_index by (rule upsert_holds_row)
  show "row_status (master_row_of (capture_target timeout sha256 page target mode')) = ''error''"
    using assms by (simp add: master_row_of_def)
  show "events (process_single_target timeout sha256 page target mode' st) =
       (case load_existing_map st (t_site_id target) of
          None \<Rightarrow> events st
        | Some previous \<Rightarrow>
            if mode' = ''monitor''
               \<and> changed (compare_maps previous (capture_target timeout sha256 page target mode'))
            then events (log_change_event page st previous
                   (capture_target timeout sha256 page target mode')
                   (change_types (compare_maps previous
                      (capture_target timeout sha256 page target mode'))))
            else events st)"
    by (rule process_single_target_events)
  show "changed (compare_maps previous (capture_target timeout sha256 page target mode'))"
    if "complete previous" for previous
    using that capture_target_failed [OF assms] by (rule failed_capture_differs)
qed

theorem failed_capture_recorded_witness:
  "load_existing_map (process_single_target 25000 (\<lambda>s. s) timeout_world acme ''monitor'' baseline_store)
       ''acme-co'' = Some error_snapshot
   \<and> changed (compare_maps ok_snapshot error_snapshot)
   \<and> events (process_single_target 25000 (\<lambda>s. s) timeout_world acme ''monitor'' empty_store) = []"
proof -
  have err: "status (capture_target 25000 (\<lambda>s. s) timeout_world acme ''monitor'') = ''error''"
    using error_snapshot_pristine by (simp add: pristine_def error_snapshot_def)
  have none: "load_existing_map empty_store (t_site_id acme) = None"
    by (simp add: load_existing_map_def empty_store_def)
  have "events empty_store = []" by (simp add: empty_store_def)
  with failed_capture_recorded [OF err, of baseline_store]
    failed_capture_recorded [OF err, of empty_store] ok_snapshot_complete none
  show ?thesis
    by (simp add: acme_site_id error_snapshot_def)
qed

text \<open>
  Claim C7. When no prior snapshot is stored for the site (none, or an unparsable one), the
  capture, successful or not, appends no change event; it saves its snapshot, which is the
  baseline of the next run. A run appends a change event only when a prior snapshot existed
  (in a monitoring run) and at least one tracked field differs, and it never appends more
  than one event or touches the earlier ones.
\<close>

theorem first_capture_no_event:
  "(load_existing_map st (t_site_id target) = None \<longrightarrow>
      events (process_single_target timeout sha256 page target mode' st) = events st
      \<and> load_existing_map (process_single_target timeout sha256 page target mode' st)
            (t_site_id target)
          = Some (capture_target timeout sha256 page target mode'))
   \<and> (events (process_single_target timeout sha256 page target mode' st) \<noteq> events st \<longrightarrow>
      (\<exists>previous. load_existing_map st (t_site_id target) = Some previous
         \<and> mode' = ''monitor''
         \<and> (dom_checksum previous
               \<noteq> dom_checksum (capture_target timeout sha256 page target mode')
             \<or> form_signature previous
               \<noteq> form_signature (capture_target timeout sha256 page target mode')
             \<or> has_captcha previous
               \<noteq> has_captcha (capture_target timeout sha256 page target mode')
             \<or> likely_multi_step previous
               \<noteq> likely_multi_step (capture_target timeout sha256 page target mode')
             \<or> resolved_url previous
               \<noteq> resolved_url (capture_target timeout sha256 page target mode'))))
   \<and> (events (process_single_target timeout sha256 page target mode' st) = events st
      \<or> (\<exists>event. events (process_single_target timeout sha256 page target mode' st)
            = events st @ [event]))"
proof (intro conjI impI)
  assume "load_existing_map st (t_site_id target) = None"
  then show "events (process_single_target timeout sha256 page target mode' st) = events st"
    by (simp add: process_single_target_events)
next
  show "load_existing_map (process_single_target timeout sha256 page target mode' st)
            (t_site_id target)
          = Some (capture_target timeout sha256 page target mode')"
    by (rule process_single_target_saves)
next
  assume grown: "events (process_single_target timeout sha256 page target mode' st) \<noteq> events st"
  then obtain previous where previous: "load_existing_map st (t_site_id target) = Some previous"
    by (cases "load_existing_map st (t_site_id target)")
      (auto simp: process_single_target_events)
  with grown have "mode' = ''monitor''"
    and "changed (compare_maps previous (capture_target timeout sha256 page target mode'))"
    by (auto simp: process_single_target_events split: if_splits)
  with previous changed_field_differs
  show "\<exists>previous. load_existing_map st (t_site_id target) = Some previous
         \<and> mode' = ''monitor''
         \<and> (dom_checksum previous
               \<noteq> dom_checksum (capture_target timeout sha256 page target mode')
             \<or> form_signature previous
               \<noteq> form_signature (capture_target timeout sha256 page target mode')
             \<or> has_captcha previous
               \<noteq> has_captcha (capture_target timeout sha256 page target mode')
             \<or> likely_multi_step previous
               \<noteq> likely_multi_step (capture_target timeout sha256 page target mode')
             \<or> resolved_url previous
               \<noteq> resolved_url (capture_target timeout sha256 page target mode'))"
    by blast
next
  show "events (process_single_target timeout sha256 page target mode' st) = events st
      \<or> (\<exists>event. events (process_single_target timeout sha256 page target mode' st)
            = events st @ [event])"
  proof (cases "load_existing_map st (t_site_id target)")
    case None
    then show ?thesis by (simp add: process_single_target_events)
  next
    case (Some previous)
    from log_change_event_appends obtain event where
      "events (log_change_event page st previous (capture_target timeout sha256 page target mode')
          (change_types (compare_maps previous (capture_target timeout sha256 page target mode'))))
        = events st @ [event]"
      by blast
    with Some show ?thesis by (auto simp: process_single_target_events)
  qed
qed

theorem first_capture_no_event_witness:
  "events (process_single_target 25000 (\<lambda>s. s) good_world acme ''monitor'' empty_store) = []
   \<and> load_existing_map (process_single_target 25000 (\<lambda>s. s) good_world acme ''monitor'' empty_store)
        ''acme-co'' = Some ok_snapshot
   \<and> (\<exists>previous. load_existing_map baseline_store ''acme-co'' = Some previous)"
proof -
  have none: "load_existing_map empty_store (t_site_id acme) = None"
    by (simp add: load_existing_map_def empty_store_def)
  have empty: "events empty_store = []" by (simp add: empty_store_def)
  have grown: "events (process_single_target 25000 (\<lambda>s. s) timeout_world acme ''monitor'' baseline_store)
      \<noteq> events baseline_store"
    using timeout_after_baseline by auto
  from first_capture_no_event [of empty_store acme 25000 "\<lambda>s. s" good_world "''monitor''"] none empty
  have "events (process_single_target 25000 (\<lambda>s. s) good_world acme ''monitor'' empty_store) = []
   \<and> load_existing_map (process_single_target 25000 (\<lambda>s. s) good_world acme ''monitor'' empty_store)
        ''acme-co'' = Some ok_snapshot"
    by (simp add: acme_site_id ok_snapshot_def)
  moreover from first_capture_no_event [of baseline_store acme 25000 "\<lambda>s. s" timeout_world "''monitor''"]
    grown
  have "\<exists>previous. load_existing_map baseline_store ''acme-co'' = Some previous"
    by (auto simp: acme_site_id)
  ultimately show ?thesis by blast
qed

section \<open>The master index\<close>

text \<open>
  The rows of the master index (none while the file is absent), and the most recent capture
  of a site in a sequence of captures.
\<close>

definition rows_of :: "store \<Rightarrow> master_row list" where
  "rows_of st = (case master_index st of None \<Rightarrow> [] | Some rows \<Rightarrow> rows)"

definition latest :: "string \<Rightarrow> site_map list \<Rightarrow> site_map option" where
  "latest s captures =
     (case filter (\<lambda>c. site_id c = s) captures of [] \<Rightarrow> None | cs \<Rightarrow> Some (last cs))"

text \<open>
  \<open>_record_master_index\<close> of the monitor toolkit replaces the row of the site in place or
  appends a new row. Starting without an index file, after any sequence of captures the
  index holds, for every site, exactly one row when the site was captured and none
  otherwise, and that row is the row of the most recent capture of the site.
\<close>

lemma replace_rows_key:
  "map k (map (\<lambda>r. if k r = k row then row else r) rows) = map k rows"
  by (induction rows) auto

lemma replace_rows_other:
  "s \<noteq> k row \<Longrightarrow>
     filter (\<lambda>r. k r = s) (map (\<lambda>r. if k r = k row then row else r) rows)
       = filter (\<lambda>r. k r = s) rows"
  by (induction rows) auto

lemma replace_rows_same:
  "distinct (map k rows) \<Longrightarrow> r0 \<in> set rows \<Longrightarrow> k r0 = k row \<Longrightarrow>
     filter (\<lambda>r. k r = k row) (map (\<lambda>r. if k r = k row then row else r) rows) = [row]"
proof (induction rows)
  case Nil
  then show ?case by simp
next
  case (Cons a rows)
  show ?case
  proof (cases "k a = k row")
    case True
    with Cons.prems(1) have "\<forall>r \<in> set rows. k r \<noteq> k row" by (auto simp: image_iff)
    then have "filter (\<lambda>r. k r = k row) (map (\<lambda>r. if k r = k row then row else r) rows) = []"
      by (induction rows) auto
    with True show ?thesis by simp
  next
    case False
    with Cons show ?thesis by auto
  qed
qed

lemma record_master_index_rows:
  assumes "distinct (map row_site_id (rows_of st))"
  shows "distinct (map row_site_id (rows_of (record_master_index st c)))"
    and "filter (\<lambda>r. row_site_id r = s) (rows_of (record_master_index st c)) =
           (if s = site_id c then [master_row_of c]
            else filter (\<lambda>r. row_site_id r = s) (rows_of st))"
proof -
  let ?row = "master_row_of c"
  have key: "row_site_id ?row = site_id c" by (simp add: master_row_of_def)
  show "distinct (map row_site_id (rows_of (record_master_index st c)))"
  proof (cases "master_index st")
    case None
    then show ?thesis by (simp add: rows_of_def record_master_index_def Let_def)
  next
    case (Some df)
    with assms have d: "distinct (map row_site_id df)" by (simp add: rows_of_def)
    show ?thesis
    proof (cases "list_ex (\<lambda>r. row_site_id r = row_site_id ?row) df")
      case True
      with Some d show ?thesis
        by (simp add: rows_of_def record_master_index_def Let_def replace_rows_key
            del: map_map)
    next
      case False
      with Some d show ?thesis
        by (auto simp: rows_of_def record_master_index_def Let_def list_ex_iff)
    qed
  qed
  show "filter (\<lambda>r. row_site_id r = s) (rows_of (record_master_index st c)) =
           (if s = site_id c then [master_row_of c]
            else filter (\<lambda>r. row_site_id r = s) (rows_of st))"
  proof (cases "master_index st")
    case None
    then show ?thesis by (simp add: rows_of_def record_master_index_def Let_def key)
  next
    case (Some df)
    with assms have d: "distinct (map row_site_id df)" by (simp add: rows_of_def)
    show ?thesis
    proof (cases "list_ex (\<lambda>r. row_site_id r = row_site_id ?row) df")
      case True
      then obtain r0 where r0: "r0 \<in> set df" "row_site_id r0 = row_site_id ?row"
        by (auto simp: list_ex_iff)
      have rows: "rows_of (record_master_index st c)
          = map (\<lambda>r. if row_site_id r = row_site_id ?row then ?row else r) df"
        using Some True by (simp add: rows_of_def record_master_index_def Let_def)
      show ?thesis
      proof (cases "s = site_id c")
        case True
        with replace_rows_same [OF d r0] show ?thesis by (simp add: rows key)
      next
        case False
        moreover have "rows_of st = df" using Some by (simp add: rows_of_def)
        ultimately show ?thesis
          using replace_rows_other [of s row_site_id ?row df] by (simp add: rows key)
      qed
    next
      case False
      then have "filter (\<lambda>r. row_site_id r = site_id c) df = []"
        by (auto simp: list_ex_iff key filter_empty_conv)
      with Some False show ?thesis
        by (auto simp: rows_of_def record_master_index_def Let_def key)
    qed
  qed
qed

lemma record_master_index_sequence:
  assumes "master_index st = None"
  shows "distinct (map row_site_id (rows_of (foldl record_master_index st captures)))
   \<and> filter (\<lambda>r. row_site_id r = s) (rows_of (foldl record_master_index st captures))
       = (case latest s captures of None \<Rightarrow> [] | Some c \<Rightarrow> [master_row_of c])"
proof (induction captures rule: rev_induct)
  case Nil
  with assms show ?case by (simp add: rows_of_def latest_def)
next
  case (snoc c captures)
  then have d: "distinct (map row_site_id (rows_of (foldl record_master_index st captures)))"
    by simp
  show ?case
    using record_master_index_rows(1) [OF d, where c = c]
      record_master_index_rows(2) [OF d, where c = c and s = s] snoc
    by (auto simp: latest_def split: list.splits)
qed

subsection \<open>The standalone mapper\<close>

text \<open>
  \<open>directories/submission_mapper_monitor.py\<close> keeps an index file of its own. Its
  \<open>persist_map\<close> writes \<open>map.json\<close> of the site and then opens \<open>master_index.csv\<close>
  for appending and writes one row. The fields of the page map carry the prefix \<open>pm_\<close>
  where the key also occurs elsewhere, those of a form \<open>lform_\<close>, of a field \<open>lf_\<close> and of
  a row of the index \<open>ix_\<close>; \<open>pm_hostname\<close> and \<open>pm_captured_at\<close> are the entries of \<open>meta\<close>.
\<close>

record legacy_field =
  lf_name :: string
  lf_type :: string
  lf_required :: bool
  lf_label :: string
  lf_placeholder :: string
  lf_selector :: string

record legacy_form =
  form_selector :: string
  lform_action :: string
  lform_method :: string
  lform_fields :: "legacy_field list"
  submit_buttons :: "string list"
  captcha_present :: bool
  steps_detected :: int

record page_map =
  pm_site_id :: string
  pm_url :: string
  pm_title :: string
  pm_forms :: "legacy_form list"
  pm_hostname :: "string option"
  pm_captured_at :: "string option"
  dom_sha256 :: string
  screenshot_path :: string

record index_row =
  ix_site_id :: string
  ix_url :: string
  ix_title :: string
  ix_hostname :: string
  ix_dom_sha256 :: string
  ix_forms_count :: nat
  ix_fields_total :: nat
  ix_captcha_present :: bool
  ix_captured_at :: string
  ix_screenshot_path :: string

record legacy_store =
  legacy_maps :: "string \<Rightarrow> page_map option"
  legacy_index :: "index_row list option"

definition persist_map :: "legacy_store \<Rightarrow> page_map \<Rightarrow> legacy_store" where
  "persist_map st pm =
     (let st = st\<lparr>legacy_maps := (legacy_maps st)(pm_site_id pm \<mapsto> pm)\<rparr>;
          row = \<lparr>ix_site_id = pm_site_id pm,
                 ix_url = pm_url pm,
                 ix_title = pm_title pm,
                 ix_hostname = or_str (pm_hostname pm),
                 ix_dom_sha256 = dom_sha256 pm,
                 ix_forms_count = length (pm_forms pm),
                 ix_fields_total = sum_list (map (\<lambda>f. length (lform_fields f)) (pm_forms pm)),
                 ix_captcha_present = list_ex captcha_present (pm_forms pm),
                 ix_captured_at = or_str (pm_captured_at pm),
                 ix_screenshot_path = screenshot_path pm\<rparr>
      in case legacy_index st of
           None \<Rightarrow> st\<lparr>legacy_index := Some [row]\<rparr>
         | Some rows \<Rightarrow> st\<lparr>legacy_index := Some (rows @ [row])\<rparr>)"

definition legacy_empty :: legacy_store where
  "legacy_empty = \<lparr>legacy_maps = (\<lambda>site. None), legacy_index = None\<rparr>"

definition acme_page :: "string \<Rightarrow> string \<Rightarrow> page_map" where
  "acme_page sha captured =
     \<lparr>pm_site_id = ''acme-co'', pm_url = ''https://acme.test'', pm_title = ''Acme'',
      pm_forms = [], pm_hostname = Some ''acme.test'', pm_captured_at = Some captured,
      dom_sha256 = sha, screenshot_path = ''out/acme-co/sshot.png''\<rparr>"

text \<open>
  Claim C6. After each capture the master index holds exactly one row for the site, with
  the data of the most recent capture. The index of the monitor toolkit does
  (\<open>record_master_index_sequence\<close> above); \<open>persist_map\<close> of the standalone mapper does
  not: two captures of the same site leave two rows, the first still with the data of the
  first capture.
\<close>

theorem persist_map_appends_duplicate:
  "map (\<lambda>r. (ix_site_id r, ix_dom_sha256 r))
     (case legacy_index (persist_map (persist_map legacy_empty (acme_page ''aa11'' ''t1''))
                           (acme_page ''bb22'' ''t2'')) of
        None \<Rightarrow> [] | Some rows \<Rightarrow> rows)
   = [(''acme-co'', ''aa11''), (''acme-co'', ''bb22'')]"
  by (simp add: persist_map_def legacy_empty_def acme_page_def Let_def)

section \<open>Selector synthesis\<close>

text \<open>
  \<open>toSelector\<close> of the extraction script runs in the page. The document is the tree of its
  elements: each element has its node name (upper case in an HTML document), its id, the
  tokens of its class list and its element children. An element is addressed by its path,
  the positions of the children to follow from the root element; its \<open>parentElement\<close> is
  at the path without the last position, and the root element has none. Two elements are
  the same object exactly when their paths are equal.
\<close>

datatype dom = Element (nodeName: string) (elem_id: string) (classList: "string list")
  (children: "dom list")

fun node_at :: "dom \<Rightarrow> nat list \<Rightarrow> dom option" where
  "node_at d [] = Some d"
| "node_at d (i # path) =
     (if i < length (children d) then node_at (children d ! i) path else None)"

text \<open>
  The body of the loop of \<open>toSelector\<close> computes the part of the element \<open>current\<close> at
  path \<open>cur\<close>; \<open>siblings.indexOf(current) + 1\<close> is one more than the number of children
  with the same node name before it. The loop walks from the element up to the root and
  puts each part in front of the parts collected so far.
\<close>

definition selector_part :: "dom \<Rightarrow> nat list \<Rightarrow> nat list \<Rightarrow> dom \<Rightarrow> string" where
  "selector_part doc el cur current =
     (let part = lower (nodeName current);
          part = (if classList current \<noteq> []
                  then part @ ''.'' @ join ''.'' (classList current) else part);
          part =
            (if cur \<noteq> el
             then (if cur = [] then part
                   else (case node_at doc (butlast cur) of
                           None \<Rightarrow> part
                         | Some parent \<Rightarrow>
                             (let siblings = filter (\<lambda>child. nodeName child = nodeName current)
                                               (children parent)
                              in if length siblings > 1
                                 then (let index = length (filter
                                             (\<lambda>child. nodeName child = nodeName current)
                                             (take (last cur) (children parent))) + 1
                                       in part @ '':nth-of-type('' @ str_nat index @ '')'')
                                 else part)))
             else part)
      in part)"

function collect_parts :: "dom \<Rightarrow> nat list \<Rightarrow> nat list \<Rightarrow> string list \<Rightarrow> string list" where
  "collect_parts doc el cur parts =
     (case node_at doc cur of
        None \<Rightarrow> parts
      | Some current \<Rightarrow>
          (let parts = selector_part doc el cur current # parts
           in if cur = [] then parts else collect_parts doc el (butlast cur) parts))"
  by pat_completeness auto
termination
  by (relation "measure (\<lambda>(doc, el, cur, parts). length cur)") auto

declare collect_parts.simps [simp del]

definition toSelector :: "dom \<Rightarrow> nat list \<Rightarrow> string option" where
  "toSelector doc el =
     (case node_at doc el of
        None \<Rightarrow> None
      | Some e \<Rightarrow>
          if nodeName e = [] then None
          else if elem_id e \<noteq> [] then Some (lower (nodeName e) @ ''#'' @ elem_id e)
          else Some (join '' > '' (collect_parts doc el el [])))"

text \<open>
  The parts of a selector. The part of an element is its tag name followed by its classes,
  joined by dots; its indexed part has in addition the position of the element among the
  siblings of the same tag name, when there is more than one such sibling.
\<close>

definition base_part :: "dom \<Rightarrow> string" where
  "base_part e =
     lower (nodeName e)
     @ (if classList e = [] then [] else ''.'' @ join ''.'' (classList e))"

definition same_tag_siblings :: "dom \<Rightarrow> nat \<Rightarrow> dom list" where
  "same_tag_siblings parent i =
     filter (\<lambda>child. nodeName child = nodeName (children parent ! i)) (children parent)"

definition position_among :: "dom \<Rightarrow> nat \<Rightarrow> nat" where
  "position_among parent i =
     Suc (length (filter (\<lambda>child. nodeName child = nodeName (children parent ! i))
                         (take i (children parent))))"

definition indexed_part :: "dom \<Rightarrow> nat \<Rightarrow> string" where
  "indexed_part parent i =
     base_part (children parent ! i)
     @ (if length (same_tag_siblings parent i) > 1
        then '':nth-of-type('' @ str_nat (position_among parent i) @ '')'' else [])"

text \<open>
  The selector as the specification words it: the chain from the root of the document to
  the element, in which each part is the tag name with the joined class list, with the
  position among the siblings of the same tag name where more than one such sibling exists.
  The root has no sibling; every element below it, the element itself included, has its
  indexed part.
\<close>

fun spec_chain :: "string \<Rightarrow> dom \<Rightarrow> nat list \<Rightarrow> string list" where
  "spec_chain here e [] = [here]"
| "spec_chain here e (i # path) =
     here # spec_chain (indexed_part e i) (children e ! i) path"

definition spec_selector :: "dom \<Rightarrow> nat list \<Rightarrow> string" where
  "spec_selector doc el = join '' > '' (spec_chain (base_part doc) doc el)"

text \<open>
  The chain of the amended claim: as above, except that the last part, the part of the
  element itself, carries no position.
\<close>

fun amended_chain :: "string \<Rightarrow> dom \<Rightarrow> nat list \<Rightarrow> string list" where
  "amended_chain here e [] = [base_part e]"
| "amended_chain here e (i # path) =
     here # amended_chain (indexed_part e i) (children e ! i) path"

definition amended_selector :: "dom \<Rightarrow> nat list \<Rightarrow> string" where
  "amended_selector doc el = join '' > '' (amended_chain (base_part doc) doc el)"

text \<open>
  Two example documents (the second a form with two buttons and nothing else), and the
  part that the loop computes at a path of a document.
\<close>

definition two_buttons :: dom where
  "two_buttons =
     Element ''HTML'' [] []
       [Element ''BODY'' [] []
          [Element ''FORM'' [] []
             [Element ''BUTTON'' [] [] [], Element ''BUTTON'' [] [] []]]]"

definition sample_page :: dom where
  "sample_page =
     Element ''HTML'' [] []
       [Element ''HEAD'' [] [] [],
        Element ''BODY'' [] [''home'']
          [Element ''DIV'' [] [''hero''] [],
           Element ''DIV'' [] [''wrap'', ''wide'']
             [Element ''FORM'' [] []
                [Element ''INPUT'' ''email'' [] [],
                 Element ''BUTTON'' [] [''btn''] [],
                 Element ''BUTTON'' [] [''btn'', ''primary''] []]]]]"

definition part_of :: "dom \<Rightarrow> nat list \<Rightarrow> nat list \<Rightarrow> string" where
  "part_of doc el cur = (case node_at doc cur of None \<Rightarrow> [] | Some current \<Rightarrow> selector_part doc el cur current)"

lemma node_at_append:
  "node_at doc (pre @ suf) = (case node_at doc pre of None \<Rightarrow> None | Some d \<Rightarrow> node_at d suf)"
  by (induction pre arbitrary: doc) auto

lemma node_at_butlast:
  assumes "node_at doc cur \<noteq> None"
  shows "node_at doc (butlast cur) \<noteq> None"
proof (cases "cur = []")
  case True
  then show ?thesis by simp
next
  case False
  then have "cur = butlast cur @ [last cur]" by simp
  then have "node_at doc (butlast cur @ [last cur]) \<noteq> None" using assms by simp
  then show ?thesis by (auto simp: node_at_append split: option.splits)
qed

lemma collect_parts_prefixes:
  "node_at doc cur \<noteq> None \<Longrightarrow>
     collect_parts doc el cur parts
       = map (\<lambda>k. part_of doc el (take k cur)) [0..<Suc (length cur)] @ parts"
proof (induction doc el cur parts rule: collect_parts.induct)
  case (1 doc el cur parts)
  from "1.prems" obtain current where current: "node_at doc cur = Some current" by auto
  show ?case
  proof (cases "cur = []")
    case True
    with current show ?thesis
      by (subst collect_parts.simps) (simp add: part_of_def)
  next
    case False
    let ?parts = "selector_part doc el cur current # parts"
    have valid: "node_at doc (butlast cur) \<noteq> None"
      using "1.prems" by (rule node_at_butlast)
    have len: "Suc (length (butlast cur)) = length cur" using False by simp
    have "collect_parts doc el cur parts = collect_parts doc el (butlast cur) ?parts"
      using current False by (subst collect_parts.simps) simp
    also have "\<dots> = map (\<lambda>k. part_of doc el (take k (butlast cur)))
                      [0..<Suc (length (butlast cur))] @ ?parts"
      using "1.IH" [OF current refl False valid] .
    also have "map (\<lambda>k. part_of doc el (take k (butlast cur))) [0..<Suc (length (butlast cur))]
        = map (\<lambda>k. part_of doc el (take k cur)) [0..<length cur]"
      unfolding len by (rule map_cong) (auto simp: take_butlast)
    also have "map (\<lambda>k. part_of doc el (take k cur)) [0..<length cur] @ ?parts
        = map (\<lambda>k. part_of doc el (take k cur)) [0..<Suc (length cur)] @ parts"
      using current by (simp add: part_of_def)
    finally show ?thesis .
  qed
qed

lemma selector_part_self: "selector_part doc el el e = base_part e"
  by (simp add: selector_part_def base_part_def Let_def)

lemma selector_part_root: "selector_part doc el [] e = base_part e"
  by (simp add: selector_part_def base_part_def Let_def)

lemma selector_part_ancestor:
  assumes "node_at doc pre = Some d" "i < length (children d)" "pre @ [i] \<noteq> el"
  shows "selector_part doc el (pre @ [i]) (children d ! i) = indexed_part d i"
  using assms
  by (simp add: selector_part_def indexed_part_def base_part_def same_tag_siblings_def
      position_among_def Let_def)

lemma amended_chain_prefixes:
  assumes "node_at doc pre = Some d" "node_at d suf \<noteq> None" "el = pre @ suf"
    "suf \<noteq> [] \<Longrightarrow> here = part_of doc el pre"
  shows "map (\<lambda>k. part_of doc el (pre @ take k suf)) [0..<Suc (length suf)] = amended_chain here d suf"
  using assms
proof (induction suf arbitrary: pre d here)
  case Nil
  then show ?case by (simp add: part_of_def selector_part_self)
next
  case (Cons i path)
  from Cons.prems(2) have i: "i < length (children d)" and
    valid: "node_at (children d ! i) path \<noteq> None"
    by (auto split: if_splits)
  have child: "node_at doc (pre @ [i]) = Some (children d ! i)"
    using Cons.prems(1) i by (simp add: node_at_append)
  have el: "el = (pre @ [i]) @ path" using Cons.prems(3) by simp
  have next_part: "path \<noteq> [] \<Longrightarrow> indexed_part d i = part_of doc el (pre @ [i])"
  proof -
    assume "path \<noteq> []"
    then have "pre @ [i] \<noteq> el" using Cons.prems(3) by simp
    from selector_part_ancestor [OF Cons.prems(1) i this] child
    show ?thesis by (simp add: part_of_def)
  qed
  have "map (\<lambda>k. part_of doc el (pre @ take k (i # path))) [0..<Suc (length (i # path))]
      = part_of doc el pre
        # map (\<lambda>k. part_of doc el ((pre @ [i]) @ take k path)) [0..<Suc (length path)]"
    by (simp add: upt_conv_Cons map_Suc_upt [symmetric] del: upt_Suc)
  also have "map (\<lambda>k. part_of doc el ((pre @ [i]) @ take k path)) [0..<Suc (length path)]
      = amended_chain (indexed_part d i) (children d ! i) path"
    using child valid el next_part by (rule Cons.IH)
  finally show ?case using Cons.prems(4) by simp
qed

lemma collect_parts_amended_chain:
  assumes "node_at doc el \<noteq> None"
  shows "collect_parts doc el el [] = amended_chain (base_part doc) doc el"
proof -
  have "collect_parts doc el el [] = map (\<lambda>k. part_of doc el (take k el)) [0..<Suc (length el)]"
    using collect_parts_prefixes [OF assms, of el "[]"] by simp
  also have "\<dots> = map (\<lambda>k. part_of doc el ([] @ take k el)) [0..<Suc (length el)]" by simp
  also have "\<dots> = amended_chain (base_part doc) doc el"
    using assms by (intro amended_chain_prefixes) (simp_all add: part_of_def selector_part_root)
  finally show ?thesis .
qed

lemma length_amended_chain:
  "node_at e path \<noteq> None \<Longrightarrow> length (amended_chain here e path) = Suc (length path)"
  by (induction path arbitrary: here e) (auto split: if_splits)

text \<open>
  Claim C9, as stated: for an element without id the selector is the chain from the root
  to the element in which each part has the position among the siblings of the same tag
  name where more than one such sibling exists. This fails for the part of the element
  itself: the loop of \<open>toSelector\<close> adds the position only to the elements other than
  the one it was called for (\<open>current !== el\<close>). The second of two sibling buttons gets
  the selector of the first, without \<open>:nth-of-type(2)\<close>.
\<close>

theorem toSelector_own_part_counterexample:
  "toSelector two_buttons [0, 0, 1] = Some ''html > body > form > button''
   \<and> spec_selector two_buttons [0, 0, 1] = ''html > body > form > button:nth-of-type(2)''
   \<and> toSelector two_buttons [0, 0, 1] \<noteq> Some (spec_selector two_buttons [0, 0, 1])
   \<and> toSelector two_buttons [0, 0, 0] = toSelector two_buttons [0, 0, 1]"
  by code_simp

text \<open>
  Claim C9, amended. For an element of the document tree, the synthesised selector is
  \<open>tag#id\<close> when the element has an id, whatever its ancestors are; otherwise it is the
  chain from the root of the document to the element, one part for each element on the
  way, each part the tag name with the joined class list; the part of an ancestor has in
  addition the position among the siblings of the same tag name exactly when more than one
  such sibling exists, and the part of the element itself has no position. The selector is
  a function of the tree and of the position of the element in it, so that an unchanged
  document gives the same selector again.
\<close>

theorem toSelector_chain:
  "(node_at doc el = None \<longrightarrow> toSelector doc el = None)
   \<and> (node_at doc el = Some e \<longrightarrow>
        toSelector doc el =
          (if nodeName e = [] then None
           else if elem_id e \<noteq> [] then Some (lower (nodeName e) @ ''#'' @ elem_id e)
           else Some (amended_selector doc el))
        \<and> length (amended_chain (base_part doc) doc el) = Suc (length el))"
proof (intro conjI impI)
  assume "node_at doc el = None"
  then show "toSelector doc el = None" by (simp add: toSelector_def)
next
  assume e: "node_at doc el = Some e"
  then have "collect_parts doc el el [] = amended_chain (base_part doc) doc el"
    by (intro collect_parts_amended_chain) simp
  with e show "toSelector doc el =
          (if nodeName e = [] then None
           else if elem_id e \<noteq> [] then Some (lower (nodeName e) @ ''#'' @ elem_id e)
           else Some (amended_selector doc el))"
    by (simp add: toSelector_def amended_selector_def)
  from e show "length (amended_chain (base_part doc) doc el) = Suc (length el)"
    by (intro length_amended_chain) simp
qed

theorem toSelector_chain_witness:
  "toSelector sample_page [1, 1, 0, 2]
     = Some ''html > body.home > div.wrap.wide:nth-of-type(2) > form > button.btn.primary''
   \<and> toSelector sample_page [1, 1, 0, 0] = Some ''input#email''
   \<and> toSelector sample_page [1, 1, 0, 3] = None"
proof -
  have button: "node_at sample_page [1, 1, 0, 2] = Some (Element ''BUTTON'' [] [''btn'', ''primary''] [])"
    by (simp add: sample_page_def)
  have input: "node_at sample_page [1, 1, 0, 0] = Some (Element ''INPUT'' ''email'' [] [])"
    by (simp add: sample_page_def)
  have none: "node_at sample_page [1, 1, 0, 3] = None"
    by (simp add: sample_page_def)
  have chain: "amended_selector sample_page [1, 1, 0, 2]
      = ''html > body.home > div.wrap.wide:nth-of-type(2) > form > button.btn.primary''"
    by code_simp
  have tag: "lower ''INPUT'' = ''input''" by code_simp
  from toSelector_chain [of sample_page "[1, 1, 0, 2]"] button chain
  have "toSelector sample_page [1, 1, 0, 2]
     = Some ''html > body.home > div.wrap.wide:nth-of-type(2) > form > button.btn.primary''"
    by simp
  moreover from toSelector_chain [of sample_page "[1, 1, 0, 0]"] input tag
  have "toSelector sample_page [1, 1, 0, 0] = Some ''input#email''"
    by simp
  moreover from toSelector_chain [of sample_page "[1, 1, 0, 3]"] none
  have "toSelector sample_page [1, 1, 0, 3] = None"
    by simp
  ultimately show ?thesis by blast
qed

end
